theory Spec2Isabelle
  imports Complex_Main "HOL-Library.Word" "HOL-Library.Log_Nat"
begin

text \<open>
  A model of the video effects pipeline: the compositor \<^verbatim>\<open>applyGrayscaleToBackground\<close>
  of \<^verbatim>\<open>effectsProcessor.ts\<close> on a store of typed arrays, the session state of the hook
  \<^verbatim>\<open>useSegmentation\<close>, and the frame loop \<^verbatim>\<open>processVideoFrame\<close> of the component
  \<^verbatim>\<open>BackgroundFilteredVideo\<close>, as a machine stepping on ticks, resumptions and callbacks.
\<close>

section \<open>JavaScript numbers\<close>

text \<open>
  A JavaScript \<^verbatim>\<open>number\<close> is an IEEE-754 double. The values the pipeline computes
  with are finite (pixel channels, their weighted sums, time stamps), or NaN where an
  operand is \<^verbatim>\<open>undefined\<close> (a typed-array read past the end). A number is modelled
  as \<open>Some q\<close>, the finite double whose exact value is the rational \<open>q\<close>, or \<open>None\<close>
  for NaN. Every arithmetic operation rounds its exact result to the nearest double,
  ties to even: \<open>fl\<close>, on a 53-bit significand. Overflow to infinity and subnormals
  are outside the range of the values below and are not modelled.
\<close>

type_synonym number = "rat option"

definition ilog2 :: "rat \<Rightarrow> int" where
  \<comment> \<open>the binary exponent of a positive rational: \<open>2 powi ilog2 x \<le> x < 2 powi (ilog2 x + 1)\<close>\<close>
  "ilog2 x = (case quotient_of x of (p, q) \<Rightarrow>
      let d = bitlen p - bitlen q in if x < 2 powi d then d - 1 else d)"

definition roundTiesToEven :: "rat \<Rightarrow> int" where
  "roundTiesToEven x =
     (let f = \<lfloor>x\<rfloor> in
      if x < of_int f + 1 / 2 then f
      else if of_int f + 1 / 2 < x then f + 1
      else if even f then f else f + 1)"

definition fl :: "rat \<Rightarrow> rat" where
  "fl x = (if x = 0 then 0
           else let e = ilog2 \<bar>x\<bar> - 52
                in sgn x * of_int (roundTiesToEven (\<bar>x\<bar> / 2 powi e)) * 2 powi e)"

definition num_lit :: "rat \<Rightarrow> number" where
  \<comment> \<open>a decimal literal of the source text, read as the nearest double\<close>
  "num_lit q = Some (fl q)"

fun num_add :: "number \<Rightarrow> number \<Rightarrow> number" where
  "num_add (Some x) (Some y) = Some (fl (x + y))"
| "num_add _ _ = None"

fun num_sub :: "number \<Rightarrow> number \<Rightarrow> number" where
  "num_sub (Some x) (Some y) = Some (fl (x - y))"
| "num_sub _ _ = None"

fun num_mul :: "number \<Rightarrow> number \<Rightarrow> number" where
  "num_mul (Some x) (Some y) = Some (fl (x * y))"
| "num_mul _ _ = None"

fun num_div :: "number \<Rightarrow> number \<Rightarrow> number" where
  \<comment> \<open>the divisors of the source are 3, a positive time difference and a positive length;
      a zero divisor (an infinity or NaN in JavaScript) is given as NaN\<close>
  "num_div (Some x) (Some y) = (if y = 0 then None else Some (fl (x / y)))"
| "num_div _ _ = None"

fun num_less :: "number \<Rightarrow> number \<Rightarrow> bool" where
  \<comment> \<open>\<^verbatim>\<open>a < b\<close>: false as soon as one side is NaN\<close>
  "num_less (Some x) (Some y) = (x < y)"
| "num_less _ _ = False"

section \<open>Typed arrays and image data\<close>

type_synonym byte = "8 word"

definition of_byte :: "byte option \<Rightarrow> number" where
  \<comment> \<open>the number read from an element; \<^verbatim>\<open>undefined\<close> converts to NaN\<close>
  "of_byte v = (case v of None \<Rightarrow> None | Some w \<Rightarrow> Some (of_nat (unat w)))"

definition ToUint8Clamp :: "number \<Rightarrow> byte" where
  \<comment> \<open>the conversion of a store into a \<^verbatim>\<open>Uint8ClampedArray\<close>: NaN gives 0, the value
      is clamped to 0..255 and rounded to the nearest integer, ties to even\<close>
  "ToUint8Clamp n =
     (case n of None \<Rightarrow> 0
      | Some x \<Rightarrow> word_of_int (roundTiesToEven (min (max x 0) 255)))"

definition array_get :: "byte list \<Rightarrow> nat \<Rightarrow> byte option" where
  \<comment> \<open>\<^verbatim>\<open>a[i]\<close>: \<^verbatim>\<open>undefined\<close> past the end\<close>
  "array_get a i = (if i < length a then Some (a ! i) else None)"

definition array_set :: "byte list \<Rightarrow> nat \<Rightarrow> number \<Rightarrow> byte list" where
  \<comment> \<open>\<^verbatim>\<open>a[i] = v\<close>: a store past the end is ignored, a typed array never grows\<close>
  "array_set a i v = (if i < length a then a[i := ToUint8Clamp v] else a)"

text \<open>
  The store holds the byte buffers of the typed arrays; an \<^verbatim>\<open>ImageData\<close> refers to its
  buffer by address, so that two image objects can share one buffer and a write through
  one is seen through the other. Addresses below \<open>next_addr\<close> are allocated.
\<close>

type_synonym addr = nat

record store =
  bufs :: "addr \<Rightarrow> byte list"
  next_addr :: addr

record ImageData =
  width :: nat
  height :: nat
  data :: addr

datatype error = InvalidStateError | IndexSizeError

definition new_Uint8ClampedArray :: "store \<Rightarrow> addr \<Rightarrow> store \<times> addr" where
  \<comment> \<open>\<^verbatim>\<open>new Uint8ClampedArray(source)\<close>: a fresh buffer holding a copy of the source's elements\<close>
  "new_Uint8ClampedArray h src =
     (h\<lparr>bufs := (bufs h)(next_addr h := bufs h src), next_addr := Suc (next_addr h)\<rparr>,
      next_addr h)"

definition new_ImageData :: "store \<Rightarrow> addr \<Rightarrow> nat \<Rightarrow> nat \<Rightarrow> error + ImageData" where
  \<comment> \<open>\<^verbatim>\<open>new ImageData(array, sw, sh)\<close> wraps the array without copying it, and throws
      unless the array holds exactly \<open>sw * sh\<close> pixels of four bytes, at least one\<close>
  "new_ImageData h a sw sh =
     (let len = length (bufs h a) in
      if len = 0 \<or> len mod 4 \<noteq> 0 then Inl InvalidStateError
      else if sw = 0 \<or> (len div 4) mod sw \<noteq> 0 then Inl IndexSizeError
      else if sh \<noteq> (len div 4) div sw then Inl IndexSizeError
      else Inr \<lparr>width = sw, height = sh, data = a\<rparr>)"

definition valid_ImageData :: "store \<Rightarrow> ImageData \<Rightarrow> bool" where
  \<comment> \<open>what every \<^verbatim>\<open>ImageData\<close> the browser hands out satisfies\<close>
  "valid_ImageData h img \<longleftrightarrow>
     data img < next_addr h \<and> 0 < width img \<and> 0 < height img \<and>
     length (bufs h (data img)) = 4 * width img * height img"

section \<open>The compositor\<close>

text \<open>
  Both options may be absent. A threshold that is given is a finite number, not
  necessarily an integer.
\<close>

record ProcessingOptions =
  threshold :: "rat option"
  useWeightedGrayscale :: "bool option"

definition DEFAULT_THRESHOLD :: rat where
  "DEFAULT_THRESHOLD = 255"

definition no_options :: ProcessingOptions where
  \<comment> \<open>the default \<^verbatim>\<open>options = {}\<close> of a call with two arguments\<close>
  "no_options = \<lparr>threshold = None, useWeightedGrayscale = None\<rparr>"

definition gray_value :: "bool \<Rightarrow> number \<Rightarrow> number \<Rightarrow> number \<Rightarrow> number" where
  "gray_value weighted r g b =
     (if weighted
      then num_add (num_add (num_mul (num_lit (299 / 1000)) r) (num_mul (num_lit (587 / 1000)) g))
                   (num_mul (num_lit (114 / 1000)) b)
      else num_div (num_add (num_add r g) b) (Some 3))"

definition pixel_step :: "byte list \<Rightarrow> byte list \<Rightarrow> rat \<Rightarrow> bool \<Rightarrow> nat \<Rightarrow> byte list" where
  \<comment> \<open>the body of the loop at index \<open>i\<close>, on the contents of the frame and mask arrays\<close>
  "pixel_step frameData maskData thr weighted i =
     (let maskValue = array_get maskData i in
      if num_less (of_byte maskValue) (Some thr) then
        let r = array_get frameData i;
            g = array_get frameData (i + 1);
            b = array_get frameData (i + 2);
            gray = gray_value weighted (of_byte r) (of_byte g) (of_byte b);
            frameData = array_set frameData i gray;
            frameData = array_set frameData (i + 1) gray;
            frameData = array_set frameData (i + 2) gray
        in frameData
      else frameData)"

function grayscale_loop :: "store \<Rightarrow> addr \<Rightarrow> addr \<Rightarrow> rat \<Rightarrow> bool \<Rightarrow> nat \<Rightarrow> store" where
  "grayscale_loop h fa ma thr weighted i =
     (if i < length (bufs h fa)
      then grayscale_loop
             (h\<lparr>bufs := (bufs h)(fa := pixel_step (bufs h fa) (bufs h ma) thr weighted i)\<rparr>)
             fa ma thr weighted (i + 4)
      else h)"
  by pat_completeness auto
termination
  by (relation "measure (\<lambda>(h, fa, ma, thr, weighted, i). length (bufs h fa) - i)")
     (auto simp: pixel_step_def array_set_def Let_def)

declare grayscale_loop.simps [simp del]

definition threshold_of :: "ProcessingOptions \<Rightarrow> rat" where
  \<comment> \<open>\<^verbatim>\<open>threshold = DEFAULT_THRESHOLD\<close> in the destructuring of the options\<close>
  "threshold_of options = (case threshold options of None \<Rightarrow> DEFAULT_THRESHOLD | Some t \<Rightarrow> t)"

definition weighted_of :: "ProcessingOptions \<Rightarrow> bool" where
  \<comment> \<open>\<^verbatim>\<open>useWeightedGrayscale = false\<close> in the destructuring of the options\<close>
  "weighted_of options = (case useWeightedGrayscale options of None \<Rightarrow> False | Some w \<Rightarrow> w)"

definition applyGrayscaleToBackground ::
  "store \<Rightarrow> ImageData \<Rightarrow> ImageData \<Rightarrow> ProcessingOptions \<Rightarrow> error + store \<times> ImageData" where
  "applyGrayscaleToBackground h originalFrame segmentationMask options =
     (let thr = threshold_of options;
          weighted = weighted_of options;
          (h1, arr) = new_Uint8ClampedArray h (data originalFrame)
      in case new_ImageData h1 arr (width originalFrame) (height originalFrame) of
           Inl e \<Rightarrow> Inl e
         | Inr processedFrame \<Rightarrow>
             Inr (grayscale_loop h1 (data processedFrame) (data segmentationMask) thr weighted 0,
                  processedFrame))"

definition areCompatibleDimensions :: "ImageData \<Rightarrow> ImageData \<Rightarrow> bool" where
  "areCompatibleDimensions imageData1 imageData2 \<longleftrightarrow>
     width imageData1 = width imageData2 \<and> height imageData1 = height imageData2"

text \<open>
  Reading the result: \<open>pixels_of h img\<close> is the content of an image's buffer, and
  \<open>confidence md p\<close> the mask sample the loop reads for pixel \<open>p\<close>, the first channel.
\<close>

definition pixels_of :: "store \<Rightarrow> ImageData \<Rightarrow> byte list" where
  "pixels_of h img = bufs h (data img)"

definition confidence :: "byte list \<Rightarrow> nat \<Rightarrow> number" where
  "confidence maskData p = of_byte (array_get maskData (4 * p))"

definition out_byte :: "byte list \<Rightarrow> byte list \<Rightarrow> rat \<Rightarrow> bool \<Rightarrow> nat \<Rightarrow> byte" where
  \<comment> \<open>the byte the finished loop leaves at index \<open>j\<close>, from the contents before the loop\<close>
  "out_byte frameData maskData thr weighted j =
     (let i = 4 * (j div 4) in
      if j mod 4 < 3 \<and> num_less (of_byte (array_get maskData i)) (Some thr)
      then ToUint8Clamp (gray_value weighted (of_byte (array_get frameData i))
                           (of_byte (array_get frameData (i + 1)))
                           (of_byte (array_get frameData (i + 2))))
      else frameData ! j)"

section \<open>Reference values and example data\<close>

text \<open>
  The exact value of the perceptual formula on three channel values, and the content the
  call leaves in the new buffer, written without the loop.
\<close>

definition weighted_exact :: "nat \<Rightarrow> nat \<Rightarrow> nat \<Rightarrow> rat" where
  "weighted_exact r g b = (299 * of_nat r + 587 * of_nat g + 114 * of_nat b) / 1000"

definition composited :: "store \<Rightarrow> ImageData \<Rightarrow> ImageData \<Rightarrow> ProcessingOptions \<Rightarrow> byte list" where
  "composited h frame msk opts =
     map (out_byte (pixels_of h frame) (pixels_of h msk) (threshold_of opts) (weighted_of opts))
         [0..<length (pixels_of h frame)]"

text \<open>
  A store with one frame of two pixels and four masks: one with every confidence below
  127, one with every confidence at or above it, one of a single pixel, and one whose first
  pixel has confidence 200 and whose second has 255.
\<close>

definition example_store :: store where
  "example_store =
     \<lparr>bufs = (\<lambda>a. [])
        (0 := [200, 100, 50, 255, 10, 20, 30, 40],
         1 := [0, 0, 0, 255, 126, 126, 126, 255],
         2 := [127, 127, 127, 255, 255, 255, 255, 255],
         3 := [0, 0, 0, 255],
         4 := [200, 200, 200, 255, 255, 255, 255, 255]),
      next_addr = 5\<rparr>"

definition example_frame :: ImageData where
  "example_frame = \<lparr>width = 2, height = 1, data = 0\<rparr>"

definition example_mask_background :: ImageData where
  "example_mask_background = \<lparr>width = 2, height = 1, data = 1\<rparr>"

definition example_mask_foreground :: ImageData where
  "example_mask_foreground = \<lparr>width = 2, height = 1, data = 2\<rparr>"

definition example_mask_small :: ImageData where
  "example_mask_small = \<lparr>width = 1, height = 1, data = 3\<rparr>"

definition example_mask_confident :: ImageData where
  "example_mask_confident = \<lparr>width = 2, height = 1, data = 4\<rparr>"

definition options_127 :: "bool \<Rightarrow> ProcessingOptions" where
  "options_127 weighted = \<lparr>threshold = Some 127, useWeightedGrayscale = Some weighted\<rparr>"

section \<open>The segmentation hook\<close>

text \<open>
  The mutable cells of \<^verbatim>\<open>useSegmentation\<close>. The provider object and the hidden canvas are
  present or \<^verbatim>\<open>null\<close>; the cached result is an image of the store or \<^verbatim>\<open>null\<close>.
\<close>

record segmentation =
  isModelLoaded :: bool
  load_error :: "string option"
  segmentationRef :: bool
  latestResultRef :: "ImageData option"
  canvasRef :: bool
  sessionIdRef :: nat
  isProcessingEnabledRef :: bool

definition initial_segmentation :: segmentation where
  "initial_segmentation =
     \<lparr>isModelLoaded = False, load_error = None, segmentationRef = False,
      latestResultRef = None, canvasRef = False, sessionIdRef = 0,
      isProcessingEnabledRef = True\<rparr>"

definition initializeSegmentation :: "string option \<Rightarrow> segmentation \<Rightarrow> segmentation" where
  \<comment> \<open>the hidden canvas is created first; the provider's constructor may throw a message\<close>
  "initializeSegmentation failure s =
     (let s = s\<lparr>canvasRef := True\<rparr> in
      case failure of
        None \<Rightarrow> s\<lparr>segmentationRef := True, isModelLoaded := True\<rparr>
      | Some msg \<Rightarrow> s\<lparr>load_error := Some (''Failed to load segmentation model: '' @ msg)\<rparr>)"

text \<open>
  The provider's callback. \<open>segmentationMask\<close> is the mask of the results as the image
  that \<^verbatim>\<open>getImageData\<close> extracts from the hidden canvas, if the results carry one;
  \<open>ctx\<close> tells whether the canvas gave a 2d context.
\<close>

definition onResults :: "ImageData option \<Rightarrow> bool \<Rightarrow> segmentation \<Rightarrow> segmentation" where
  "onResults segmentationMask ctx s =
     (if \<not> isProcessingEnabledRef s then s
      else case segmentationMask of
        None \<Rightarrow> s
      | Some img \<Rightarrow>
          if \<not> canvasRef s then s
          else if \<not> ctx then s
          else s\<lparr>latestResultRef := Some img\<rparr>)"

text \<open>
  \<^verbatim>\<open>processFrame\<close> suspends at \<^verbatim>\<open>await send\<close>. Its first half returns at once or
  issues the request; its second half runs when the promise of \<^verbatim>\<open>send\<close> settles, and
  reads the cache then.
\<close>

datatype request = Returned "ImageData option" | Awaiting

definition processFrame_issue :: "segmentation \<Rightarrow> request" where
  "processFrame_issue s =
     (if \<not> segmentationRef s \<or> \<not> isModelLoaded s then Returned None else Awaiting)"

definition processFrame_resume :: "bool \<Rightarrow> segmentation \<Rightarrow> ImageData option" where
  \<comment> \<open>\<open>sent\<close>: the promise resolved; a rejection is caught and gives \<^verbatim>\<open>null\<close>\<close>
  "processFrame_resume sent s = (if sent then latestResultRef s else None)"

definition cleanup :: "segmentation \<Rightarrow> segmentation" where
  "cleanup s =
     s\<lparr>segmentationRef := False, canvasRef := False, latestResultRef := None,
       isProcessingEnabledRef := False\<rparr>"

definition reset :: "segmentation \<Rightarrow> segmentation" where
  "reset s =
     s\<lparr>isProcessingEnabledRef := False, latestResultRef := None,
       sessionIdRef := sessionIdRef s + 1\<rparr>"

definition enable :: "segmentation \<Rightarrow> segmentation" where
  "enable s = s\<lparr>isProcessingEnabledRef := True, latestResultRef := None\<rparr>"

text \<open>What can happen to the hook between the issue of a request and its callback.\<close>

datatype seg_event = Reset | Enable | Cleanup | Results "ImageData option" bool

fun seg_step :: "segmentation \<Rightarrow> seg_event \<Rightarrow> segmentation" where
  "seg_step s Reset = reset s"
| "seg_step s Enable = enable s"
| "seg_step s Cleanup = cleanup s"
| "seg_step s (Results segmentationMask ctx) = onResults segmentationMask ctx s"

definition seg_run :: "segmentation \<Rightarrow> seg_event list \<Rightarrow> segmentation" where
  "seg_run s es = foldl seg_step s es"

definition example_segmentation :: segmentation where
  \<comment> \<open>the hook once the model has loaded\<close>
  "example_segmentation = initializeSegmentation None initial_segmentation"

section \<open>The frame scheduler\<close>

text \<open>
  The refs of the component \<^verbatim>\<open>BackgroundFilteredVideo\<close> and what its loop acts on: the
  hook, the store of image buffers, the visible canvas (the output sink), the calls made
  to \<^verbatim>\<open>onStatsUpdate\<close> and the errors logged by the \<^verbatim>\<open>catch\<close>. \<^verbatim>\<open>processVideoFrame\<close>
  suspends at \<^verbatim>\<open>await processFrame(video)\<close>; \<open>in_flight\<close> holds the suspended calls,
  each with the locals it resumes with.
\<close>

record pending =
  frameData :: ImageData
  startTime :: rat
  issued :: bool

record scheduler =
  hook :: segmentation
  heap :: store
  isProcessingActiveRef :: bool
  isFrameProcessingRef :: bool
  animationFrameRef :: "nat option"
  requested_frames :: nat
  lastFrameTimeRef :: number
  fpsCounterRef :: "number list"
  visible_canvas :: "ImageData option"
  hasStatsCallback :: bool
  stats_updates :: "(number \<times> number) list"
  in_flight :: "pending list"
  logged_errors :: nat

text \<open>
  What a tick finds: whether the three element refs are set, the state of the video,
  whether both canvases give a context, whether drawing the video on the hidden canvas
  and reading it back throws (a tainted or empty canvas), the frame that
  \<^verbatim>\<open>getImageData\<close> reads otherwise, and the clock. What a resumption finds: whether \<^verbatim>\<open>send\<close> resolved, the
  frame the video shows by then (the canvases have the video's size, so \<^verbatim>\<open>drawImage\<close>
  copies it unscaled), and the clock at its two readings.
\<close>

record tick_env =
  refs_ok :: bool
  paused :: bool
  ended :: bool
  contexts_ok :: bool
  capture_throws :: bool
  video_frame :: ImageData
  tick_now :: rat

record resume_env =
  send_resolved :: bool
  video_now :: ImageData
  endTime :: rat
  time_now :: rat

definition requestAnimationFrame :: "scheduler \<Rightarrow> scheduler" where
  \<comment> \<open>\<^verbatim>\<open>animationFrameRef.current = requestAnimationFrame(processVideoFrame)\<close>, a new handle\<close>
  "requestAnimationFrame s =
     s\<lparr>animationFrameRef := Some (requested_frames s),
       requested_frames := Suc (requested_frames s)\<rparr>"

definition schedule_next :: "scheduler \<Rightarrow> scheduler" where
  "schedule_next s = (if isProcessingActiveRef s then requestAnimationFrame s else s)"

definition processVideoFrame :: "scheduler \<Rightarrow> tick_env \<Rightarrow> scheduler" where
  \<comment> \<open>a tick, up to the \<^verbatim>\<open>await\<close>\<close>
  "processVideoFrame s env =
     (if \<not> isProcessingActiveRef s then s
      else if isFrameProcessingRef s then schedule_next s
      else
        let s = s\<lparr>isFrameProcessingRef := True\<rparr> in
        if \<not> refs_ok env \<or> paused env \<or> ended env
        then schedule_next (s\<lparr>isFrameProcessingRef := False\<rparr>)
        else if \<not> contexts_ok env
        then schedule_next (s\<lparr>isFrameProcessingRef := False\<rparr>)
        else if capture_throws env
        then schedule_next
               (s\<lparr>logged_errors := Suc (logged_errors s), isFrameProcessingRef := False\<rparr>)
        else s\<lparr>in_flight := in_flight s @
               [\<lparr>frameData = video_frame env, startTime = tick_now env,
                 issued = (processFrame_issue (hook s) = Awaiting)\<rparr>]\<rparr>)"

definition Math_round :: "number \<Rightarrow> number" where
  "Math_round n = (case n of None \<Rightarrow> None | Some x \<Rightarrow> Some (of_int \<lfloor>x + 1 / 2\<rfloor>))"

definition draw_frame ::
  "scheduler \<Rightarrow> pending \<Rightarrow> ImageData option \<Rightarrow> resume_env \<Rightarrow> error + scheduler" where
  \<comment> \<open>the effect or the fallback; \<open>Inl\<close> is an exception on its way to the \<^verbatim>\<open>catch\<close>\<close>
  "draw_frame s p segmentationMask env =
     (case segmentationMask of
        None \<Rightarrow> Inr (s\<lparr>visible_canvas := Some (video_now env)\<rparr>)
      | Some m \<Rightarrow>
          if areCompatibleDimensions (frameData p) m
          then (case applyGrayscaleToBackground (heap s) (frameData p) m no_options of
                  Inl e \<Rightarrow> Inl e
                | Inr (h', processedFrame) \<Rightarrow>
                    Inr (s\<lparr>heap := h', visible_canvas := Some processedFrame\<rparr>))
          else Inr (s\<lparr>visible_canvas := Some (video_now env)\<rparr>))"

definition record_stats :: "scheduler \<Rightarrow> pending \<Rightarrow> resume_env \<Rightarrow> scheduler" where
  "record_stats s p env =
     (let processingTime = num_sub (Some (endTime env)) (Some (startTime p));
          now = Some (time_now env);
          deltaTime = num_sub now (lastFrameTimeRef s);
          s = (if num_less (Some 0) deltaTime then
                 let currentFps = num_div (Some 1000) deltaTime;
                     counter = fpsCounterRef s @ [currentFps];
                     counter = (if 30 < length counter then tl counter else counter);
                     avgFps = num_div (foldl num_add (Some 0) counter)
                                (Some (of_nat (length counter)));
                     s = s\<lparr>fpsCounterRef := counter\<rparr>
                 in if hasStatsCallback s
                    then s\<lparr>stats_updates := stats_updates s @
                            [(Math_round avgFps, Math_round processingTime)]\<rparr>
                    else s
               else s)
      in s\<lparr>lastFrameTimeRef := now\<rparr>)"

definition processVideoFrame_resume :: "scheduler \<Rightarrow> resume_env \<Rightarrow> scheduler" where
  \<comment> \<open>the rest of the oldest suspended call, from the \<^verbatim>\<open>await\<close> on\<close>
  "processVideoFrame_resume s env =
     (case in_flight s of
        [] \<Rightarrow> s
      | p # rest \<Rightarrow>
          let s = s\<lparr>in_flight := rest\<rparr>;
              segmentationMask =
                (if issued p then processFrame_resume (send_resolved env) (hook s) else None)
          in if \<not> isProcessingActiveRef s then s\<lparr>isFrameProcessingRef := False\<rparr>
             else
               let s = (case draw_frame s p segmentationMask env of
                          Inl e \<Rightarrow> s\<lparr>logged_errors := Suc (logged_errors s)\<rparr>
                        | Inr s' \<Rightarrow> record_stats s' p env)
               in schedule_next (s\<lparr>isFrameProcessingRef := False\<rparr>))"

definition start_processing :: "scheduler \<Rightarrow> scheduler" where
  \<comment> \<open>the effect once the video is ready, the model loaded and the effect enabled, up to
      its first call of \<^verbatim>\<open>processVideoFrame\<close>\<close>
  "start_processing s =
     s\<lparr>isProcessingActiveRef := True, hook := enable (hook s), visible_canvas := None,
       fpsCounterRef := [], lastFrameTimeRef := Some 0\<rparr>"

definition stop_processing :: "scheduler \<Rightarrow> scheduler" where
  \<comment> \<open>the cleanup of the effect\<close>
  "stop_processing s =
     s\<lparr>isProcessingActiveRef := False, isFrameProcessingRef := False,
       animationFrameRef := None\<rparr>"

text \<open>
  With the filter switched off the effect draws the video itself. What
  \<^verbatim>\<open>drawVideoDirectly\<close> finds: whether the video and the visible canvas refs are set, the
  state of the video, whether the canvas gives a context, and the frame the video shows.
\<close>

record direct_env =
  video_ok :: bool
  canvas_ok :: bool
  direct_paused :: bool
  direct_ended :: bool
  context_ok :: bool
  direct_frame :: ImageData

definition drawVideoDirectly :: "scheduler \<Rightarrow> direct_env \<Rightarrow> scheduler" where
  "drawVideoDirectly s env =
     (if \<not> video_ok env \<or> \<not> canvas_ok env \<or> direct_paused env \<or> direct_ended env then s
      else requestAnimationFrame
             (if context_ok env then s\<lparr>visible_canvas := Some (direct_frame env)\<rparr> else s))"

definition effect_disabled :: "scheduler \<Rightarrow> direct_env \<Rightarrow> scheduler" where
  \<comment> \<open>the effect when the filter is switched off and the video is ready: the loop is
      stopped, the hook reset, the canvases cleared, the statistics emptied, and the video
      drawn directly\<close>
  "effect_disabled s env =
     drawVideoDirectly
       (s\<lparr>isProcessingActiveRef := False, isFrameProcessingRef := False,
          hook := reset (hook s),
          visible_canvas :=
            (if canvas_ok env \<and> context_ok env then None else visible_canvas s),
          fpsCounterRef := [], lastFrameTimeRef := Some 0\<rparr>)
       env"

text \<open>
  What happens to the component, in any order: a tick of the loop, the resumption of the
  oldest suspended call, a callback of the provider, the cleanup of the effect, the effect
  with the filter switched off, a later frame of the direct drawing, and the effect
  starting the loop (again), which ends with its own first call of
  \<^verbatim>\<open>processVideoFrame\<close>. React runs the cleanup before the effect runs again; the run does
  not depend on it.
\<close>

datatype event =
  Tick tick_env | Resume resume_env | Callback "ImageData option" bool
  | Stop | Disable direct_env | Direct direct_env | Start tick_env

fun step :: "scheduler \<Rightarrow> event \<Rightarrow> scheduler" where
  "step s (Tick env) = processVideoFrame s env"
| "step s (Resume env) = processVideoFrame_resume s env"
| "step s (Callback segmentationMask ctx) = s\<lparr>hook := onResults segmentationMask ctx (hook s)\<rparr>"
| "step s Stop = stop_processing s"
| "step s (Disable env) = effect_disabled s env"
| "step s (Direct env) = drawVideoDirectly s env"
| "step s (Start env) = processVideoFrame (start_processing s) env"

definition run :: "scheduler \<Rightarrow> event list \<Rightarrow> scheduler" where
  "run s es = foldl step s es"

fun starts_unsuspended :: "scheduler \<Rightarrow> event list \<Rightarrow> bool" where
  \<comment> \<open>along the run from \<open>s\<close>, the effect never starts the loop while a call is suspended\<close>
  "starts_unsuspended s [] = True"
| "starts_unsuspended s (Start env # es) =
     (in_flight s = [] \<and> starts_unsuspended (step s (Start env)) es)"
| "starts_unsuspended s (e # es) = starts_unsuspended (step s e) es"

text \<open>Example data: a mounted component before its effect runs, and what the loop meets.\<close>

definition example_scheduler :: scheduler where
  "example_scheduler =
     \<lparr>hook = example_segmentation, heap = example_store,
      isProcessingActiveRef = False, isFrameProcessingRef = False,
      animationFrameRef = None, requested_frames = 0,
      lastFrameTimeRef = Some 0, fpsCounterRef = [],
      visible_canvas = None, hasStatsCallback = True, stats_updates = [],
      in_flight = [], logged_errors = 0\<rparr>"

definition example_tick :: "rat \<Rightarrow> tick_env" where
  "example_tick t =
     \<lparr>refs_ok = True, paused = False, ended = False, contexts_ok = True,
      capture_throws = False, video_frame = example_frame, tick_now = t\<rparr>"

definition example_direct :: direct_env where
  "example_direct =
     \<lparr>video_ok = True, canvas_ok = True, direct_paused = False, direct_ended = False,
      context_ok = True, direct_frame = example_frame\<rparr>"

definition example_resume :: "rat \<Rightarrow> resume_env" where
  "example_resume t =
     \<lparr>send_resolved = True, video_now = example_frame, endTime = t, time_now = t\<rparr>"

section \<open>Rounding to the nearest double\<close>

lemma bitlen_lower: "0 < p \<Longrightarrow> (2::rat) powi (bitlen p - 1) \<le> of_int p"
proof -
  assume p: "0 < p"
  then have b: "2 ^ nat (bitlen p - 1) \<le> p" using bitlen_bounds by blast
  have pos: "0 \<le> bitlen p - 1" using p bitlen_eq_zero_iff[of p] bitlen_nonneg[of p] by linarith
  have "(2::rat) powi (bitlen p - 1) = 2 ^ nat (bitlen p - 1)"
    using pos by (simp add: power_int_def)
  also have "\<dots> = of_int (2 ^ nat (bitlen p - 1))" by simp
  also have "\<dots> \<le> of_int p" using b by (simp only: of_int_le_iff)
  finally show ?thesis .
qed

lemma bitlen_upper: "0 < p \<Longrightarrow> of_int p < (2::rat) powi (bitlen p)"
proof -
  assume p: "0 < p"
  then have b: "p < 2 ^ nat (bitlen p)" using bitlen_bounds by blast
  have "(2::rat) powi (bitlen p) = 2 ^ nat (bitlen p)"
    using bitlen_nonneg[of p] by (simp add: power_int_def)
  also have "\<dots> = of_int (2 ^ nat (bitlen p))" by simp
  finally have e: "(2::rat) powi (bitlen p) = of_int (2 ^ nat (bitlen p))" .
  show ?thesis unfolding e using b by (simp only: of_int_less_iff)
qed

lemma ilog2_bounds:
  assumes "0 < x"
  shows "2 powi (ilog2 x) \<le> x \<and> x < 2 powi (ilog2 x + 1)"
proof -
  obtain p q where pq: "quotient_of x = (p, q)" by (cases "quotient_of x")
  have q: "0 < q" using pq quotient_of_denom_pos by blast
  have x: "x = of_int p / of_int q" using pq quotient_of_div by blast
  have p: "0 < p" using assms q x by (simp add: zero_less_divide_iff)
  define d where "d = bitlen p - bitlen q"
  have il: "ilog2 x = (if x < 2 powi d then d - 1 else d)"
    by (simp add: ilog2_def pq d_def Let_def)
  have qr: "(0::rat) < of_int q" using q by simp
  have lo: "(2::rat) powi (d - 1) \<le> x"
  proof -
    have "(2::rat) powi (d - 1) = 2 powi (bitlen p - 1) / 2 powi (bitlen q)"
      by (simp add: d_def power_int_diff)
    also have "\<dots> \<le> of_int p / 2 powi (bitlen q)"
      using bitlen_lower[OF p] by (simp add: divide_right_mono)
    also have "\<dots> \<le> of_int p / of_int q"
      using bitlen_upper[OF q] p qr by (simp add: frac_le)
    finally show ?thesis using x by simp
  qed
  have hi: "x < (2::rat) powi (d + 1)"
  proof -
    have "x = of_int p / of_int q" by (rule x)
    also have "\<dots> < 2 powi (bitlen p) / of_int q"
      using bitlen_upper[OF p] qr by (simp add: divide_strict_right_mono)
    also have "\<dots> \<le> 2 powi (bitlen p) / 2 powi (bitlen q - 1)"
      using bitlen_lower[OF q] qr by (intro divide_left_mono) (auto simp: zero_less_power_int)
    also have "\<dots> = 2 powi (d + 1)"
      by (simp add: d_def power_int_diff power_int_add)
    finally show ?thesis .
  qed
  show ?thesis
  proof (cases "x < 2 powi d")
    case True
    then show ?thesis using lo il by simp
  next
    case False
    then show ?thesis using hi il by simp
  qed
qed

lemma roundTiesToEven_near: "\<bar>of_int (roundTiesToEven x) - x\<bar> \<le> 1 / 2"
proof -
  have "of_int \<lfloor>x\<rfloor> \<le> x" "x < of_int \<lfloor>x\<rfloor> + 1" by linarith+
  then show ?thesis unfolding roundTiesToEven_def Let_def by auto
qed

lemma roundTiesToEven_eqI:
  assumes "\<bar>x - of_int n\<bar> < 1 / 2"
  shows "roundTiesToEven x = n"
proof -
  have f: "of_int \<lfloor>x\<rfloor> \<le> x" "x < of_int \<lfloor>x\<rfloor> + 1" by linarith+
  have "\<lfloor>x\<rfloor> = n \<or> \<lfloor>x\<rfloor> = n - 1" using assms by (auto; linarith)
  then show ?thesis
  proof
    assume "\<lfloor>x\<rfloor> = n"
    then show ?thesis using assms f unfolding roundTiesToEven_def Let_def by auto
  next
    assume "\<lfloor>x\<rfloor> = n - 1"
    then show ?thesis using assms f unfolding roundTiesToEven_def Let_def by auto
  qed
qed

lemma roundTiesToEven_of_int: "roundTiesToEven (of_int n) = n"
  by (rule roundTiesToEven_eqI) simp

lemma fl_error:
  assumes "0 < x"
  shows "\<bar>fl x - x\<bar> \<le> x / 2 ^ 53"
proof -
  define e where "e = ilog2 x - 52"
  define m where "m = x / 2 powi e"
  have pe: "(0::rat) < 2 powi e" by (simp add: zero_less_power_int)
  have flx: "fl x = of_int (roundTiesToEven m) * 2 powi e"
    using assms by (simp add: fl_def e_def m_def Let_def)
  have xm: "x = m * 2 powi e" using pe by (simp add: m_def)
  have "fl x - x = (of_int (roundTiesToEven m) - m) * 2 powi e"
    by (simp add: flx xm[symmetric] algebra_simps m_def)
  then have "\<bar>fl x - x\<bar> = \<bar>of_int (roundTiesToEven m) - m\<bar> * 2 powi e"
    using pe by (simp add: abs_mult)
  also have "\<dots> \<le> (1 / 2) * 2 powi e"
    using roundTiesToEven_near[of m] pe by (intro mult_right_mono) auto
  also have "\<dots> = 2 powi (e + 52) / 2 ^ 53"
    by (simp add: power_int_add)
  also have "\<dots> \<le> x / 2 ^ 53"
    using ilog2_bounds[OF assms] by (simp add: e_def divide_right_mono)
  finally show ?thesis .
qed

lemma fl_of_int:
  assumes "0 \<le> n" "n < 2 ^ 53"
  shows "fl (of_int n) = of_int n"
proof (cases "n = 0")
  case True
  then show ?thesis by (simp add: fl_def)
next
  case False
  define x :: rat where "x = of_int n"
  have x: "0 < x" using assms False by (simp add: x_def)
  define e where "e = ilog2 x - 52"
  have "2 powi (ilog2 x) \<le> x" using ilog2_bounds[OF x] by simp
  also have "x < 2 powi 53" using assms by (simp add: x_def) 
  finally have "(2::rat) powi (ilog2 x) < 2 powi 53" .
  then have "ilog2 x < 53" by (rule power_int_le_imp_less_exp[rotated]) simp_all
  then have e0: "e \<le> 0" by (simp add: e_def)
  have m: "x / 2 powi e = of_int (n * 2 ^ nat (- e))"
    using e0 by (simp add: x_def power_int_def power_divide)
  have "fl x = of_int (roundTiesToEven (x / 2 powi e)) * 2 powi e"
    using x by (simp add: fl_def e_def Let_def)
  also have "\<dots> = of_int (n * 2 ^ nat (- e)) * 2 powi e"
    unfolding m roundTiesToEven_of_int ..
  also have "\<dots> = x" using e0 by (simp add: x_def power_int_def power_divide)
  finally show ?thesis by (simp add: x_def)
qed

text \<open>
  The three literals of the weighted formula, as the doubles a JavaScript engine reads
  them: \<^verbatim>\<open>0x3FD322D0E5604189\<close>, \<^verbatim>\<open>0x3FE2C8B439581062\<close> and \<^verbatim>\<open>0x3FBD2F1A9FBE76C9\<close>.
\<close>

lemma literal_doubles:
  "num_lit (299 / 1000) = Some (5386305154335113 / 2 ^ 54)"
  "num_lit (587 / 1000) = Some (2643612981266481 / 2 ^ 52)"
  "num_lit (114 / 1000) = Some (8214565720323785 / 2 ^ 56)"
  by code_simp+

section \<open>The loop of the compositor\<close>

lemma length_array_set: "length (array_set a i v) = length a"
  by (simp add: array_set_def)

lemma nth_array_set:
  "j < length a \<Longrightarrow> array_set a i v ! j = (if j = i then ToUint8Clamp v else a ! j)"
  by (simp add: array_set_def)

lemma length_pixel_step: "length (pixel_step fd md thr w i) = length fd"
  by (simp add: pixel_step_def Let_def length_array_set)

lemma nth_pixel_step:
  "j < length fd \<Longrightarrow>
   pixel_step fd md thr w i ! j =
     (if i \<le> j \<and> j < i + 3 \<and> num_less (of_byte (array_get md i)) (Some thr)
      then ToUint8Clamp (gray_value w (of_byte (array_get fd i)) (of_byte (array_get fd (i + 1)))
                           (of_byte (array_get fd (i + 2))))
      else fd ! j)"
  by (auto simp: pixel_step_def Let_def length_array_set nth_array_set)

lemma array_get_pixel_step:
  "k < i \<or> i + 3 \<le> k \<Longrightarrow> array_get (pixel_step fd md thr w i) k = array_get fd k"
  by (auto simp: array_get_def length_pixel_step nth_pixel_step)

lemma pixel_step_block:
  assumes "i mod 4 = 0" "i \<le> j" "j < i + 4" "j < length fd"
  shows "pixel_step fd md thr w i ! j = out_byte fd md thr w j"
proof -
  have "4 * (j div 4) = i" using assms by presburger
  moreover have "j mod 4 < 3 \<longleftrightarrow> j < i + 3" using assms by presburger
  ultimately show ?thesis using assms by (simp add: nth_pixel_step out_byte_def Let_def)
qed

lemma out_byte_pixel_step:
  assumes "i mod 4 = 0" "i + 4 \<le> j" "j < length fd"
  shows "out_byte (pixel_step fd md thr w i) md thr w j = out_byte fd md thr w j"
proof -
  have k: "i + 4 \<le> 4 * (j div 4)" using assms by presburger
  then have "array_get (pixel_step fd md thr w i) (4 * (j div 4)) = array_get fd (4 * (j div 4))"
    "array_get (pixel_step fd md thr w i) (4 * (j div 4) + 1) = array_get fd (4 * (j div 4) + 1)"
    "array_get (pixel_step fd md thr w i) (4 * (j div 4) + 2) = array_get fd (4 * (j div 4) + 2)"
    by (auto intro!: array_get_pixel_step)
  moreover have "pixel_step fd md thr w i ! j = fd ! j"
    using assms by (simp add: nth_pixel_step)
  ultimately show ?thesis by (simp add: out_byte_def Let_def)
qed

lemma next_addr_grayscale_loop: "next_addr (grayscale_loop h fa ma thr w i) = next_addr h"
  by (induction h fa ma thr w i rule: grayscale_loop.induct) (subst grayscale_loop.simps, simp)

lemma bufs_grayscale_loop:
  assumes "fa \<noteq> ma" "i mod 4 = 0"
  shows "bufs (grayscale_loop h fa ma thr w i) =
           (bufs h)(fa := map (\<lambda>j. if j < i then bufs h fa ! j
                                     else out_byte (bufs h fa) (bufs h ma) thr w j)
                              [0..<length (bufs h fa)])"
  using assms
proof (induction h fa ma thr w i rule: grayscale_loop.induct)
  case (1 h fa ma thr w i)
  let ?fd = "bufs h fa" and ?md = "bufs h ma"
  show ?case
  proof (cases "i < length ?fd")
    case False
    then have "map (\<lambda>j. if j < i then ?fd ! j else out_byte ?fd ?md thr w j) [0..<length ?fd] = ?fd"
      by (intro nth_equalityI) auto
    then show ?thesis using False by (subst grayscale_loop.simps) simp
  next
    case True
    let ?fd' = "pixel_step ?fd ?md thr w i"
    let ?h' = "h\<lparr>bufs := (bufs h)(fa := ?fd')\<rparr>"
    have fa': "bufs ?h' fa = ?fd'" by simp
    have md': "bufs ?h' ma = ?md" using "1.prems" by simp
    have upd: "(bufs ?h')(fa := X) = (bufs h)(fa := X)" for X by simp
    have i4: "(i + 4) mod 4 = 0" using "1.prems" by presburger
    have "bufs (grayscale_loop ?h' fa ma thr w (i + 4)) =
           (bufs ?h')(fa := map (\<lambda>j. if j < i + 4 then bufs ?h' fa ! j
                                     else out_byte (bufs ?h' fa) (bufs ?h' ma) thr w j)
                              [0..<length (bufs ?h' fa)])"
      using "1.IH"[OF True "1.prems"(1) i4] .
    then have IH: "bufs (grayscale_loop ?h' fa ma thr w (i + 4)) =
           (bufs h)(fa := map (\<lambda>j. if j < i + 4 then ?fd' ! j else out_byte ?fd' ?md thr w j)
                              [0..<length ?fd'])"
      unfolding fa' md' upd .
    have eq: "map (\<lambda>j. if j < i + 4 then ?fd' ! j else out_byte ?fd' ?md thr w j) [0..<length ?fd']
            = map (\<lambda>j. if j < i then ?fd ! j else out_byte ?fd ?md thr w j) [0..<length ?fd]"
    proof (intro nth_equalityI, goal_cases)
      case 1
      show ?case by (simp add: length_pixel_step)
    next
      case (2 j)
      then have j: "j < length ?fd" by (simp add: length_pixel_step)
      consider "j < i" | "i \<le> j" "j < i + 4" | "i + 4 \<le> j" by linarith
      then show ?case
      proof cases
        case 1
        then show ?thesis using j by (simp add: length_pixel_step nth_pixel_step)
      next
        case 2
        then show ?thesis using j pixel_step_block[OF "1.prems"(2) 2 j]
          by (simp add: length_pixel_step)
      next
        case 3
        then show ?thesis using j out_byte_pixel_step[OF "1.prems"(2) 3 j]
          by (simp add: length_pixel_step)
      qed
    qed
    have step: "grayscale_loop h fa ma thr w i = grayscale_loop ?h' fa ma thr w (i + 4)"
      using True by (subst grayscale_loop.simps) simp
    show ?thesis unfolding step IH eq ..
  qed
qed

section \<open>The gray value\<close>

lemma fl_abs_error:
  assumes "0 \<le> x" "x \<le> 256"
  shows "\<bar>fl x - x\<bar> \<le> 1 / 2 ^ 45"
proof (cases "x = 0")
  case True
  then show ?thesis by (simp add: fl_def)
next
  case False
  then have "\<bar>fl x - x\<bar> \<le> x / 2 ^ 53" using assms fl_error by simp
  also have "\<dots> \<le> 256 / 2 ^ 53" using assms by (simp add: divide_right_mono)
  also have "\<dots> = 1 / 2 ^ 45" by simp
  finally show ?thesis .
qed

lemma fl_nonneg: "0 \<le> x \<Longrightarrow> 0 \<le> fl x"
proof (cases "x = 0")
  case True
  then show ?thesis by (simp add: fl_def)
next
  case False
  assume "0 \<le> x"
  with False have x: "0 < x" by simp
  have "x / 2 ^ 53 \<le> x" using x by (simp add: field_simps)
  with fl_error[OF x] show ?thesis by linarith
qed

lemma weighted_term:
  fixes q :: rat and n :: nat
  assumes q: "0 \<le> q" "q \<le> 9 / 10" and n: "n \<le> 255"
  shows "\<bar>fl (fl q * of_nat n) - q * of_nat n\<bar> \<le> 1 / 2 ^ 36 \<and> 0 \<le> fl (fl q * of_nat n)"
proof -
  define d :: rat where "d = 1 / 2 ^ 45"
  have d: "0 \<le> d" "d \<le> 1 / 10" "255 * d + d \<le> 1 / 2 ^ 36" by (simp_all add: d_def)
  have "\<bar>fl q - q\<bar> \<le> 1 / 2 ^ 45" using q by (intro fl_abs_error) auto
  then have c: "\<bar>fl q - q\<bar> \<le> d" by (simp add: d_def)
  have c0: "0 \<le> fl q" using q fl_nonneg by simp
  have c1: "fl q \<le> 1" using c q d by (simp add: abs_le_iff; linarith)
  have nr: "(of_nat n :: rat) \<le> 255" using n by (metis of_nat_le_iff of_nat_numeral)
  have n0: "(0::rat) \<le> of_nat n" by simp
  have p0: "0 \<le> fl q * of_nat n" using c0 by simp
  have "fl q * of_nat n \<le> 1 * 255" using c0 c1 nr n0 by (intro mult_mono) auto
  then have p1: "fl q * of_nat n \<le> 256" by simp
  have "\<bar>fl q * of_nat n - q * of_nat n\<bar> = \<bar>fl q - q\<bar> * of_nat n"
    by (simp add: abs_mult flip: left_diff_distrib)
  also have "\<dots> \<le> d * 255" using c nr d by (intro mult_mono) auto
  finally have e1: "\<bar>fl q * of_nat n - q * of_nat n\<bar> \<le> 255 * d" by simp
  have "\<bar>fl (fl q * of_nat n) - fl q * of_nat n\<bar> \<le> 1 / 2 ^ 45"
    using p0 p1 by (rule fl_abs_error)
  then have e2: "\<bar>fl (fl q * of_nat n) - fl q * of_nat n\<bar> \<le> d" by (simp add: d_def)
  have "\<bar>fl (fl q * of_nat n) - q * of_nat n\<bar> \<le> 255 * d + d"
    using e1 e2 by (simp add: abs_le_iff; linarith)
  then have "\<bar>fl (fl q * of_nat n) - q * of_nat n\<bar> \<le> 1 / 2 ^ 36" using d(3) by linarith
  then show ?thesis using fl_nonneg[OF p0] by simp
qed

lemma gray_weighted_close:
  assumes "r \<le> 255" "g \<le> 255" "b \<le> 255"
  shows "\<exists>y. gray_value True (Some (of_nat r)) (Some (of_nat g)) (Some (of_nat b)) = Some y \<and>
             \<bar>y - weighted_exact r g b\<bar> \<le> 1 / 2 ^ 34"
proof -
  define t1 where "t1 = fl (fl (299 / 1000) * of_nat r)"
  define t2 where "t2 = fl (fl (587 / 1000) * of_nat g)"
  define t3 where "t3 = fl (fl (114 / 1000) * of_nat b)"
  define x1 :: rat where "x1 = 299 / 1000 * of_nat r"
  define x2 :: rat where "x2 = 587 / 1000 * of_nat g"
  define x3 :: rat where "x3 = 114 / 1000 * of_nat b"
  define d :: rat where "d = 1 / 2 ^ 45"
  define e :: rat where "e = 1 / 2 ^ 36"
  have de: "0 \<le> d" "d \<le> 1 / 100" "0 \<le> e" "e \<le> 1 / 100" "3 * e + 2 * d \<le> 1 / 2 ^ 34"
    by (simp_all add: d_def e_def)
  have nr: "(of_nat r :: rat) \<le> 255" "(of_nat g :: rat) \<le> 255" "(of_nat b :: rat) \<le> 255"
    using assms by (metis of_nat_le_iff of_nat_numeral)+
  have n0: "(0::rat) \<le> of_nat r" "(0::rat) \<le> of_nat g" "(0::rat) \<le> of_nat b" by simp_all
  have X: "0 \<le> x1" "0 \<le> x2" "0 \<le> x3" "x1 + x2 + x3 \<le> 255"
    using nr n0 by (simp_all add: x1_def x2_def x3_def)
  have T1: "\<bar>t1 - x1\<bar> \<le> e" "0 \<le> t1"
    unfolding t1_def x1_def e_def using weighted_term[of "299 / 1000" r] assms by simp_all
  have T2: "\<bar>t2 - x2\<bar> \<le> e" "0 \<le> t2"
    unfolding t2_def x2_def e_def using weighted_term[of "587 / 1000" g] assms by simp_all
  have T3: "\<bar>t3 - x3\<bar> \<le> e" "0 \<le> t3"
    unfolding t3_def x3_def e_def using weighted_term[of "114 / 1000" b] assms by simp_all
  note B1 = T1(1)[unfolded abs_le_iff] and B2 = T2(1)[unfolded abs_le_iff]
    and B3 = T3(1)[unfolded abs_le_iff]
  have s12: "0 \<le> t1 + t2" "t1 + t2 \<le> 256"
    using T1(2) T2(2) B1 B2 X de by linarith+
  have "\<bar>fl (t1 + t2) - (t1 + t2)\<bar> \<le> 1 / 2 ^ 45" using s12 by (rule fl_abs_error)
  then have E1: "\<bar>fl (t1 + t2) - (t1 + t2)\<bar> \<le> d" by (simp add: d_def)
  note C1 = E1[unfolded abs_le_iff]
  have s123: "0 \<le> fl (t1 + t2) + t3" "fl (t1 + t2) + t3 \<le> 256"
    using fl_nonneg[OF s12(1)] T3(2) C1 B1 B2 B3 X de by linarith+
  have "\<bar>fl (fl (t1 + t2) + t3) - (fl (t1 + t2) + t3)\<bar> \<le> 1 / 2 ^ 45"
    using s123 by (rule fl_abs_error)
  then have E2: "\<bar>fl (fl (t1 + t2) + t3) - (fl (t1 + t2) + t3)\<bar> \<le> d" by (simp add: d_def)
  note C2 = E2[unfolded abs_le_iff]
  have "\<bar>fl (fl (t1 + t2) + t3) - (x1 + x2 + x3)\<bar> \<le> 3 * e + 2 * d"
    using C1 C2 B1 B2 B3 by (intro abs_leI) linarith+
  then have "\<bar>fl (fl (t1 + t2) + t3) - (x1 + x2 + x3)\<bar> \<le> 1 / 2 ^ 34" using de(5) by linarith
  moreover have "x1 + x2 + x3 = weighted_exact r g b"
    by (simp add: weighted_exact_def x1_def x2_def x3_def field_simps)
  moreover have "gray_value True (Some (of_nat r)) (Some (of_nat g)) (Some (of_nat b)) =
      Some (fl (fl (t1 + t2) + t3))"
    by (simp add: gray_value_def num_lit_def t1_def t2_def t3_def)
  ultimately show ?thesis by auto
qed

lemma clamp_round_range:
  "0 \<le> roundTiesToEven (min (max y 0) 255) \<and> roundTiesToEven (min (max y 0) 255) \<le> 255"
proof -
  define c where "c = min (max y 0) 255"
  have c: "0 \<le> c" "c \<le> 255" by (simp_all add: c_def)
  note r = roundTiesToEven_near[of c, unfolded abs_le_iff]
  have "- 1 / 2 \<le> (of_int (roundTiesToEven c) :: rat)" "(of_int (roundTiesToEven c) :: rat) \<le> 255 + 1 / 2"
    using c r by linarith+
  then have "(of_int (- 1) :: rat) < of_int (roundTiesToEven c)"
    "(of_int (roundTiesToEven c) :: rat) < of_int 256"
    by simp_all
  then have "- 1 < roundTiesToEven c" "roundTiesToEven c < 256"
    by (simp_all only: of_int_less_iff)
  then show ?thesis by (simp add: c_def)
qed

lemma unat_ToUint8Clamp:
  "unat (ToUint8Clamp (Some y)) = nat (roundTiesToEven (min (max y 0) 255))"
proof -
  define k where "k = roundTiesToEven (min (max y 0) 255)"
  have k: "0 \<le> k" "k \<le> 255" using clamp_round_range[of y] by (simp_all add: k_def)
  have "uint (word_of_int k :: byte) = k"
    using k by (simp add: uint_word_of_int take_bit_int_eq_self)
  then have "unat (word_of_int k :: byte) = nat k" by (simp add: unat_eq_nat_uint)
  then show ?thesis by (simp add: ToUint8Clamp_def k_def)
qed

lemma ToUint8Clamp_eqI:
  assumes "\<bar>y - of_nat n\<bar> < 1 / 2" "n \<le> 255"
  shows "unat (ToUint8Clamp (Some y)) = n"
proof -
  define c where "c = min (max y 0) 255"
  have nr: "(of_nat n :: rat) \<le> of_nat 255" using assms(2) by (simp only: of_nat_le_iff)
  have "\<bar>c - of_nat n\<bar> \<le> \<bar>y - of_nat n\<bar>" using nr by (simp add: c_def min_def max_def abs_if)
  then have "\<bar>c - of_int (int n)\<bar> < 1 / 2" using assms(1) by simp
  then have "roundTiesToEven c = int n" by (rule roundTiesToEven_eqI)
  then show ?thesis by (simp add: unat_ToUint8Clamp c_def)
qed

lemma ToUint8Clamp_close:
  assumes "\<bar>y - x\<bar> \<le> d" "0 \<le> x" "x \<le> 255"
  shows "\<bar>of_nat (unat (ToUint8Clamp (Some y))) - x\<bar> \<le> 1 / 2 + d"
proof -
  define c where "c = min (max y 0) 255"
  have "\<bar>c - x\<bar> \<le> \<bar>y - x\<bar>" using assms(2,3) by (simp add: c_def min_def max_def abs_if)
  then have cx: "\<bar>c - x\<bar> \<le> d" using assms(1) by linarith
  have r: "\<bar>of_int (roundTiesToEven c) - c\<bar> \<le> 1 / 2" by (rule roundTiesToEven_near)
  have "0 \<le> roundTiesToEven c" using clamp_round_range[of y] by (simp add: c_def)
  then have "(of_nat (unat (ToUint8Clamp (Some y))) :: rat) = of_int (roundTiesToEven c)"
    by (simp add: unat_ToUint8Clamp c_def)
  then show ?thesis using cx r by (simp add: abs_le_iff; linarith)
qed

lemma third_close: "\<bar>(of_nat n :: rat) / 3 - of_nat ((n + 1) div 3)\<bar> \<le> 1 / 3"
proof -
  define m where "m = (n + 1) div 3"
  have "n = 3 * m \<or> n = 3 * m + 1 \<or> n + 1 = 3 * m" unfolding m_def by presburger
  then have "(of_nat n :: rat) = 3 * of_nat m \<or> (of_nat n :: rat) = 3 * of_nat m + 1
     \<or> (of_nat n :: rat) + 1 = 3 * of_nat m"
  proof (elim disjE)
    assume "n = 3 * m"
    then have "(of_nat n :: rat) = of_nat (3 * m)" by (rule arg_cong)
    then show ?thesis by simp
  next
    assume "n = 3 * m + 1"
    then have "(of_nat n :: rat) = of_nat (3 * m + 1)" by (rule arg_cong)
    then show ?thesis by simp
  next
    assume "n + 1 = 3 * m"
    then have "(of_nat (n + 1) :: rat) = of_nat (3 * m)" by (rule arg_cong)
    then show ?thesis by simp
  qed
  then have "\<bar>(of_nat n :: rat) / 3 - of_nat m\<bar> \<le> 1 / 3"
    by (elim disjE; intro abs_leI; linarith)
  then show ?thesis by (simp add: m_def)
qed

lemma of_nat_le_255: "n \<le> 255 \<Longrightarrow> (of_nat n :: rat) \<le> 255"
proof -
  assume "n \<le> 255"
  then have "(of_nat n :: rat) \<le> of_nat 255" by (simp only: of_nat_le_iff)
  then show ?thesis by simp
qed

lemma gray_average_byte:
  assumes "r \<le> 255" "g \<le> 255" "b \<le> 255"
  shows "unat (ToUint8Clamp (gray_value False (Some (of_nat r)) (Some (of_nat g)) (Some (of_nat b))))
           = (r + g + b + 1) div 3"
proof -
  define n where "n = r + g + b"
  define m where "m = (n + 1) div 3"
  have n: "n \<le> 765" using assms by (simp add: n_def)
  have m: "m \<le> 255" using n by (simp add: m_def)
  have i1: "int (r + g) < 2 ^ 53" using assms by simp
  have i2: "int n < 2 ^ 53" using n by simp
  have "fl (of_int (int (r + g))) = of_int (int (r + g))" using i1 by (intro fl_of_int) simp_all
  then have s1: "fl (of_nat r + of_nat g) = of_nat r + of_nat g" by simp
  have "fl (of_int (int n)) = of_int (int n)" using i2 by (intro fl_of_int) simp_all
  then have s2: "fl (of_nat r + of_nat g + of_nat b) = of_nat r + of_nat g + of_nat b"
    by (simp add: n_def)
  have nq: "(of_nat r + of_nat g + of_nat b :: rat) = of_nat n" by (simp add: n_def)
  have gv: "gray_value False (Some (of_nat r)) (Some (of_nat g)) (Some (of_nat b)) =
      Some (fl (of_nat n / 3))"
    unfolding nq[symmetric] by (simp add: gray_value_def s1 s2)
  have "(of_nat r + of_nat g + of_nat b :: rat) \<le> 768"
    using of_nat_le_255[OF assms(1)] of_nat_le_255[OF assms(2)] of_nat_le_255[OF assms(3)]
    by linarith
  then have nr: "(of_nat n :: rat) / 3 \<le> 256" unfolding nq by simp
  have n0: "0 \<le> (of_nat n :: rat) / 3" by simp
  have e: "\<bar>fl (of_nat n / 3) - of_nat n / 3\<bar> \<le> 1 / 2 ^ 45" using n0 nr by (rule fl_abs_error)
  have small: "(1::rat) / 2 ^ 45 < 1 / 6" by simp
  have t: "\<bar>(of_nat n :: rat) / 3 - of_nat m\<bar> \<le> 1 / 3" unfolding m_def by (rule third_close)
  have "\<bar>fl (of_nat n / 3) - of_nat m\<bar> < 1 / 2"
    using e[unfolded abs_le_iff] t[unfolded abs_le_iff] small by (simp only: abs_less_iff) linarith
  then have "unat (ToUint8Clamp (Some (fl (of_nat n / 3)))) = m" using m by (rule ToUint8Clamp_eqI)
  then show ?thesis unfolding gv m_def n_def .
qed

lemma gray_weighted_byte:
  assumes "r \<le> 255" "g \<le> 255" "b \<le> 255"
  shows "\<bar>of_nat (unat (ToUint8Clamp (gray_value True (Some (of_nat r)) (Some (of_nat g)) (Some (of_nat b)))))
           - weighted_exact r g b\<bar> \<le> 1 / 2"
proof -
  obtain y where y: "gray_value True (Some (of_nat r)) (Some (of_nat g)) (Some (of_nat b)) = Some y"
    and close: "\<bar>y - weighted_exact r g b\<bar> \<le> 1 / 2 ^ 34"
    using gray_weighted_close[OF assms] by blast
  define k where "k = unat (ToUint8Clamp (Some y))"
  define N where "N = 299 * r + 587 * g + 114 * b"
  have x: "weighted_exact r g b = of_nat N / 1000" by (simp add: weighted_exact_def N_def)
  have nr: "(of_nat r :: rat) \<le> 255" "(of_nat g :: rat) \<le> 255" "(of_nat b :: rat) \<le> 255"
    using assms by (simp_all add: of_nat_le_255)
  have x0: "0 \<le> weighted_exact r g b" by (simp add: weighted_exact_def)
  have x1: "weighted_exact r g b \<le> 255" using nr by (simp add: weighted_exact_def)
  have "\<bar>of_nat k - weighted_exact r g b\<bar> \<le> 1 / 2 + 1 / 2 ^ 34"
    unfolding k_def using close x0 x1 by (rule ToUint8Clamp_close)
  moreover have "(1::rat) / 2 ^ 34 < 1 / 1000" by simp
  ultimately have "\<bar>(of_nat k :: rat) - of_nat N / 1000\<bar> < 501 / 1000" unfolding x by linarith
  then have "\<bar>(of_int (1000 * int k - int N) :: rat)\<bar> < 501" by (simp add: abs_less_iff field_simps)
  then have "\<bar>1000 * int k - int N\<bar> < 501" by (metis of_int_abs of_int_less_iff of_int_numeral)
  then have "\<bar>1000 * int k - int N\<bar> \<le> 500" by simp
  then have "\<bar>(of_int (1000 * int k - int N) :: rat)\<bar> \<le> 500" by (metis of_int_abs of_int_le_iff of_int_numeral)
  then have "\<bar>(of_nat k :: rat) - of_nat N / 1000\<bar> \<le> 1 / 2" by (simp add: abs_le_iff field_simps)
  then show ?thesis by (simp add: y k_def x)
qed

lemma gray_fixpoint:
  fixes v :: byte
  shows "ToUint8Clamp (gray_value w (of_byte (Some v)) (of_byte (Some v)) (of_byte (Some v))) = v"
proof -
  define n where "n = unat v"
  have n: "n \<le> 255" using unsigned_less[of v, where 'a = nat] by (simp add: n_def)
  have "unat (ToUint8Clamp (gray_value w (Some (of_nat n)) (Some (of_nat n)) (Some (of_nat n)))) = n"
  proof (cases w)
    case False
    then show ?thesis using gray_average_byte[OF n n n] by simp
  next
    case True
    define k where "k = unat (ToUint8Clamp (gray_value True (Some (of_nat n)) (Some (of_nat n)) (Some (of_nat n))))"
    have "weighted_exact n n n = of_nat n" by (simp add: weighted_exact_def)
    then have "\<bar>(of_nat k :: rat) - of_nat n\<bar> \<le> 1 / 2" using gray_weighted_byte[OF n n n] by (simp add: k_def)
    then have "\<bar>(of_int (int k - int n) :: rat)\<bar> < 1" by simp
    then have "\<bar>int k - int n\<bar> < 1" by (metis of_int_abs of_int_less_iff of_int_1)
    then have "k = n" by simp
    then show ?thesis using True by (simp add: k_def)
  qed
  then show ?thesis by (simp add: of_byte_def n_def word_unat_eq_iff)
qed

section \<open>The call as a whole\<close>

lemma grayscale_loop_bufs_only:
  "grayscale_loop h fa ma thr w i = h\<lparr>bufs := bufs (grayscale_loop h fa ma thr w i)\<rparr>"
proof (induction h fa ma thr w i rule: grayscale_loop.induct)
  case (1 h fa ma thr w i)
  show ?case
  proof (cases "i < length (bufs h fa)")
    case False
    then show ?thesis by (subst (1 2) grayscale_loop.simps) simp
  next
    case True
    let ?h' = "h\<lparr>bufs := (bufs h)(fa := pixel_step (bufs h fa) (bufs h ma) thr w i)\<rparr>"
    have step: "grayscale_loop h fa ma thr w i = grayscale_loop ?h' fa ma thr w (i + 4)"
      using True by (subst grayscale_loop.simps) simp
    have "grayscale_loop ?h' fa ma thr w (i + 4) =
            ?h'\<lparr>bufs := bufs (grayscale_loop ?h' fa ma thr w (i + 4))\<rparr>"
      using "1.IH"[OF True] .
    also have "\<dots> = h\<lparr>bufs := bufs (grayscale_loop ?h' fa ma thr w (i + 4))\<rparr>" by simp
    finally show ?thesis unfolding step .
  qed
qed

lemma bufs_grayscale_loop_other:
  "a \<noteq> fa \<Longrightarrow> bufs (grayscale_loop h fa ma thr w i) a = bufs h a"
proof (induction h fa ma thr w i rule: grayscale_loop.induct)
  case (1 h fa ma thr w i)
  show ?case
  proof (cases "i < length (bufs h fa)")
    case False
    then show ?thesis by (subst grayscale_loop.simps) simp
  next
    case True
    let ?h' = "h\<lparr>bufs := (bufs h)(fa := pixel_step (bufs h fa) (bufs h ma) thr w i)\<rparr>"
    have step: "grayscale_loop h fa ma thr w i = grayscale_loop ?h' fa ma thr w (i + 4)"
      using True by (subst grayscale_loop.simps) simp
    show ?thesis unfolding step using "1.IH"[OF True "1.prems"] "1.prems" by simp
  qed
qed

lemma new_ImageData_valid:
  assumes "length (bufs h a) = 4 * sw * sh" "0 < sw" "0 < sh"
  shows "new_ImageData h a sw sh = Inr \<lparr>width = sw, height = sh, data = a\<rparr>"
proof -
  have "length (bufs h a) div 4 = sw * sh" using assms(1) by simp
  moreover have "length (bufs h a) mod 4 = 0" using assms(1) by (simp add: mult.assoc)
  moreover have "length (bufs h a) \<noteq> 0" using assms by simp
  ultimately show ?thesis using assms(2,3) by (simp add: new_ImageData_def Let_def)
qed

lemma applyGrayscaleToBackground_returns:
  assumes "valid_ImageData h frame"
  shows "\<exists>h'. applyGrayscaleToBackground h frame msk opts =
           Inr (h', \<lparr>width = width frame, height = height frame, data = next_addr h\<rparr>) \<and>
           next_addr h' = Suc (next_addr h) \<and>
           (\<forall>a. a \<noteq> next_addr h \<longrightarrow> bufs h' a = bufs h a) \<and>
           length (bufs h' (next_addr h)) = length (bufs h (data frame)) \<and>
           (data msk \<noteq> next_addr h \<longrightarrow> bufs h' (next_addr h) = composited h frame msk opts)"
proof -
  let ?n = "next_addr h"
  let ?h1 = "h\<lparr>bufs := (bufs h)(?n := bufs h (data frame)), next_addr := Suc ?n\<rparr>"
  let ?out = "\<lparr>width = width frame, height = height frame, data = ?n\<rparr>"
  let ?h' = "grayscale_loop ?h1 ?n (data msk) (threshold_of opts) (weighted_of opts) 0"
  have v: "data frame < ?n" "0 < width frame" "0 < height frame"
    "length (bufs h (data frame)) = 4 * width frame * height frame"
    using assms by (simp_all add: valid_ImageData_def)
  have "new_ImageData ?h1 ?n (width frame) (height frame) = Inr ?out"
    using v by (intro new_ImageData_valid) simp_all
  then have eq: "applyGrayscaleToBackground h frame msk opts = Inr (?h', ?out)"
    by (simp add: applyGrayscaleToBackground_def new_Uint8ClampedArray_def Let_def)
  have n': "next_addr ?h' = Suc ?n" by (simp add: next_addr_grayscale_loop)
  have other: "bufs ?h' a = bufs h a" if "a \<noteq> ?n" for a
    using that by (simp add: bufs_grayscale_loop_other)
  have comp: "bufs ?h' ?n = composited h frame msk opts" if "data msk \<noteq> ?n"
  proof -
    have "bufs ?h' = (bufs ?h1)(?n := map (\<lambda>j. if j < 0 then bufs ?h1 ?n ! j
               else out_byte (bufs ?h1 ?n) (bufs ?h1 (data msk)) (threshold_of opts) (weighted_of opts) j)
             [0..<length (bufs ?h1 ?n)])"
      using that by (intro bufs_grayscale_loop) auto
    then show ?thesis using that by (simp add: composited_def pixels_of_def)
  qed
  have len: "length (bufs ?h' ?n) = length (bufs h (data frame))"
  proof -
    have "length (bufs (grayscale_loop g fa ma thr w i) fa) = length (bufs g fa)" for g fa ma thr w i
    proof (induction g fa ma thr w i rule: grayscale_loop.induct)
      case (1 g fa ma thr w i)
      show ?case
      proof (cases "i < length (bufs g fa)")
        case False
        then show ?thesis by (subst grayscale_loop.simps) simp
      next
        case True
        show ?thesis using "1.IH"[OF True] True
          by (subst grayscale_loop.simps) (simp add: length_pixel_step)
      qed
    qed
    then show ?thesis by simp
  qed
  show ?thesis using eq n' other comp len by blast
qed

lemmas example_defs = example_store_def example_frame_def example_mask_background_def
  example_mask_foreground_def example_mask_small_def example_mask_confident_def
  options_127_def no_options_def valid_ImageData_def
  areCompatibleDimensions_def pixels_of_def threshold_of_def weighted_of_def

lemma length_composited: "length (composited h frame msk opts) = length (pixels_of h frame)"
  by (simp add: composited_def)

lemma nth_composited:
  "j < length (pixels_of h frame) \<Longrightarrow>
   composited h frame msk opts ! j =
     out_byte (pixels_of h frame) (pixels_of h msk) (threshold_of opts) (weighted_of opts) j"
  by (simp add: composited_def)

lemma valid_pixel_index:
  assumes "valid_ImageData h img" "p < width img * height img" "c < 4"
  shows "4 * p + c < length (pixels_of h img)"
  using assms by (simp add: valid_ImageData_def pixels_of_def mult.assoc)

lemma pixel_of_index:
  fixes p c :: nat
  shows "c < 4 \<Longrightarrow> 4 * ((4 * p + c) div 4) = 4 * p \<and> (4 * p + c) mod 4 = c"
  by simp

lemma all_less_2: "(\<forall>p<2::nat. P p) \<longleftrightarrow> P 0 \<and> P 1"
  by (auto simp: less_2_cases_iff)

lemma out_byte_pixel:
  assumes "c < 4"
  shows "out_byte fd md thr w (4 * p + c) =
     (if c < 3 \<and> num_less (of_byte (array_get md (4 * p))) (Some thr)
      then ToUint8Clamp (gray_value w (of_byte (array_get fd (4 * p)))
                           (of_byte (array_get fd (4 * p + 1)))
                           (of_byte (array_get fd (4 * p + 2))))
      else fd ! (4 * p + c))"
  using pixel_of_index[OF assms, of p] by (simp add: out_byte_def Let_def)



lemma composited_fixpoint:
  assumes n: "length (pixels_of h1 out1) = 4 * k"
    and first: "pixels_of h1 out1 = composited h frame msk opts"
    and same: "pixels_of h1 msk = pixels_of h msk"
    and len: "length (pixels_of h frame) = 4 * k"
  shows "composited h1 out1 msk opts = pixels_of h1 out1"
proof (rule nth_equalityI)
  show "length (composited h1 out1 msk opts) = length (pixels_of h1 out1)"
    by (rule length_composited)
next
  fix j assume "j < length (composited h1 out1 msk opts)"
  then have j: "j < 4 * k" by (simp add: length_composited n)
  let ?fd = "pixels_of h frame" and ?fd1 = "pixels_of h1 out1" and ?md = "pixels_of h msk"
  let ?thr = "threshold_of opts" and ?w = "weighted_of opts"
  define p where "p = j div 4"
  define c where "c = j mod 4"
  have jc: "j = 4 * p + c" "c < 4" by (simp_all add: p_def c_def)
  have p: "p < k" using j by (simp add: p_def)
  have i: "4 * p + d < 4 * k" if "d < 4" for d using p that by simp
  have o1: "?fd1 ! (4 * p + d) = out_byte ?fd ?md ?thr ?w (4 * p + d)" if "d < 4" for d
    unfolding first using i[OF that] len by (simp add: nth_composited)
  show "composited h1 out1 msk opts ! j = ?fd1 ! j"
  proof (cases "c < 3 \<and> num_less (of_byte (array_get ?md (4 * p))) (Some ?thr)")
    case False
    then have "out_byte ?fd1 ?md ?thr ?w (4 * p + c) = ?fd1 ! (4 * p + c)"
      unfolding out_byte_pixel[OF jc(2)] by (simp only: if_False)
    then show ?thesis using j jc n by (simp add: nth_composited same)
  next
    case True
    define G where "G = ToUint8Clamp (gray_value ?w (of_byte (array_get ?fd (4 * p)))
        (of_byte (array_get ?fd (4 * p + 1))) (of_byte (array_get ?fd (4 * p + 2))))"
    have g: "?fd1 ! (4 * p + d) = G" if "d < 3" for d
      using o1[of d] that True by (simp add: out_byte_pixel G_def)
    have a: "array_get ?fd1 (4 * p) = Some G" "array_get ?fd1 (4 * p + 1) = Some G"
      "array_get ?fd1 (4 * p + 2) = Some G"
      using g[of 0] g[of 1] g[of 2] i[of 0] i[of 1] i[of 2] n by (simp_all add: array_get_def)
    have "composited h1 out1 msk opts ! j =
        ToUint8Clamp (gray_value ?w (of_byte (Some G)) (of_byte (Some G)) (of_byte (Some G)))"
      using j jc n True by (simp add: nth_composited out_byte_pixel same a a[simplified])
    also have "\<dots> = G" by (rule gray_fixpoint)
    also have "G = ?fd1 ! j" using g[of c] True jc by simp
    finally show ?thesis .
  qed
qed

section \<open>The segmentation hook: while processing is disabled\<close>

lemma onResults_disabled: "\<not> isProcessingEnabledRef s \<Longrightarrow> onResults r ctx s = s"
  by (simp add: onResults_def)

lemma seg_step_disabled:
  assumes "\<not> isProcessingEnabledRef s" "latestResultRef s = None" "e \<noteq> Enable"
  shows "\<not> isProcessingEnabledRef (seg_step s e) \<and> latestResultRef (seg_step s e) = None"
  using assms by (cases e) (simp_all add: reset_def cleanup_def onResults_def)

lemma seg_run_disabled:
  assumes "\<not> isProcessingEnabledRef s" "latestResultRef s = None" "Enable \<notin> set es"
  shows "\<not> isProcessingEnabledRef (seg_run s es) \<and> latestResultRef (seg_run s es) = None"
  using assms unfolding seg_run_def
proof (induction es arbitrary: s)
  case Nil
  then show ?case by simp
next
  case (Cons e es)
  have "e \<noteq> Enable" "Enable \<notin> set es" using Cons.prems(3) by auto
  with seg_step_disabled[OF Cons.prems(1,2)] Cons.IH show ?case by simp
qed

lemma result_rejected_while_disabled:
  assumes "processFrame_issue s = Awaiting" "Enable \<notin> set es"
  shows "onResults segmentationMask ctx (seg_run (reset s) es) = seg_run (reset s) es \<and>
         latestResultRef (onResults segmentationMask ctx (seg_run (reset s) es)) = None \<and>
         processFrame_resume sent (onResults segmentationMask ctx (seg_run (reset s) es)) = None"
proof -
  have "\<not> isProcessingEnabledRef (reset s)" "latestResultRef (reset s) = None"
    by (simp_all add: reset_def)
  then have d: "\<not> isProcessingEnabledRef (seg_run (reset s) es)"
    "latestResultRef (seg_run (reset s) es) = None"
    using seg_run_disabled[OF _ _ assms(2)] by blast+
  show ?thesis using d by (simp add: onResults_disabled processFrame_resume_def)
qed

section \<open>The frame scheduler: the guard and the statistics\<close>

lemma fl_pos: "0 < x \<Longrightarrow> 0 < fl x"
proof -
  assume x: "0 < x"
  have "x / 2 ^ 53 < x" using x by (simp add: field_simps)
  with fl_error[OF x] show ?thesis by linarith
qed

lemma fl_pos_numeral [simp]: "0 < fl (numeral n)"
  by (rule fl_pos) simp

lemma processVideoFrame_dropped:
  "isProcessingActiveRef s \<Longrightarrow> isFrameProcessingRef s \<Longrightarrow>
   processVideoFrame s env = requestAnimationFrame s"
  by (simp add: processVideoFrame_def schedule_next_def)

lemma processVideoFrame_starts:
  assumes "isProcessingActiveRef s" "\<not> isFrameProcessingRef s"
    and "refs_ok env" "\<not> paused env" "\<not> ended env" "contexts_ok env"
      "\<not> capture_throws env"
  shows "processVideoFrame s env =
     s\<lparr>isFrameProcessingRef := True,
       in_flight := in_flight s @
         [\<lparr>frameData = video_frame env, startTime = tick_now env,
           issued = (processFrame_issue (hook s) = Awaiting)\<rparr>]\<rparr>"
  using assms by (simp add: processVideoFrame_def Let_def)

lemma in_flight_schedule_next [simp]:
  "in_flight (schedule_next s) = in_flight s"
  "isFrameProcessingRef (schedule_next s) = isFrameProcessingRef s"
  by (simp_all add: schedule_next_def requestAnimationFrame_def)

lemma in_flight_record_stats [simp]: "in_flight (record_stats s p env) = in_flight s"
  by (simp add: record_stats_def Let_def)

lemma in_flight_draw_frame: "draw_frame s p m env = Inr s' \<Longrightarrow> in_flight s' = in_flight s"
  by (auto simp: draw_frame_def split: option.splits if_splits sum.splits)

lemma in_flight_resume:
  "in_flight (processVideoFrame_resume s env) = tl (in_flight s)"
  by (auto simp: processVideoFrame_resume_def Let_def in_flight_draw_frame
      split: list.splits sum.splits)

lemma guard_step:
  assumes "length (in_flight s) \<le> 1"
    "in_flight s \<noteq> [] \<and> isProcessingActiveRef s \<longrightarrow> isFrameProcessingRef s"
    "\<And>env. e = Start env \<Longrightarrow> in_flight s = []"
  shows "length (in_flight (step s e)) \<le> 1 \<and>
         (in_flight (step s e) \<noteq> [] \<and> isProcessingActiveRef (step s e)
            \<longrightarrow> isFrameProcessingRef (step s e))"
proof (cases e)
  case (Tick env)
  then show ?thesis using assms(1,2)
    by (auto simp: processVideoFrame_def Let_def schedule_next_def requestAnimationFrame_def)
next
  case (Resume env)
  have "in_flight (step s e) = []"
    using assms(1) Resume by (cases "in_flight s") (simp_all add: in_flight_resume)
  then show ?thesis by simp
next
  case (Callback m ctx)
  then show ?thesis using assms(1,2) by simp
next
  case Stop
  then show ?thesis using assms(1,2) by (simp add: stop_processing_def)
next
  case (Disable env)
  then show ?thesis using assms(1,2)
    by (simp add: effect_disabled_def drawVideoDirectly_def requestAnimationFrame_def)
next
  case (Direct env)
  then show ?thesis using assms(1,2)
    by (simp add: drawVideoDirectly_def requestAnimationFrame_def)
next
  case (Start env)
  then have "in_flight s = []" by (rule assms(3))
  then show ?thesis using Start
    by (auto simp: processVideoFrame_def start_processing_def Let_def schedule_next_def
        requestAnimationFrame_def)
qed

lemma starts_unsuspended_Cons:
  assumes "starts_unsuspended s (e # es)"
  shows "starts_unsuspended (step s e) es" "\<And>env. e = Start env \<Longrightarrow> in_flight s = []"
  using assms by (cases e; simp)+

lemma guard_run:
  assumes "length (in_flight s) \<le> 1"
    "in_flight s \<noteq> [] \<and> isProcessingActiveRef s \<longrightarrow> isFrameProcessingRef s"
    "starts_unsuspended s es"
  shows "length (in_flight (run s es)) \<le> 1 \<and>
         (in_flight (run s es) \<noteq> [] \<and> isProcessingActiveRef (run s es)
            \<longrightarrow> isFrameProcessingRef (run s es))"
  using assms unfolding run_def
proof (induction es arbitrary: s)
  case Nil
  then show ?case by simp
next
  case (Cons e es)
  note g = guard_step[OF Cons.prems(1,2) starts_unsuspended_Cons(2)[OF Cons.prems(3)], of e]
  show ?case
    using Cons.IH[OF g[THEN conjunct1] g[THEN conjunct2]
        starts_unsuspended_Cons(1)[OF Cons.prems(3)]]
    by simp
qed

lemma valid_ImageData_grow:
  assumes "valid_ImageData h img" "next_addr h \<le> next_addr h'"
    "\<forall>a < next_addr h. bufs h' a = bufs h a"
  shows "valid_ImageData h' img"
  using assms by (simp add: valid_ImageData_def)

lemma draw_frame_valid:
  assumes "valid_ImageData (heap s) (frameData p)"
  shows "\<exists>h' c. draw_frame s p m env = Inr (s\<lparr>heap := h', visible_canvas := c\<rparr>) \<and>
           (\<forall>img. valid_ImageData (heap s) img \<longrightarrow> valid_ImageData h' img)"
proof -
  have pass: ?thesis if "draw_frame s p m env = Inr (s\<lparr>visible_canvas := Some (video_now env)\<rparr>)"
  proof -
    have "s\<lparr>visible_canvas := Some (video_now env)\<rparr> =
        s\<lparr>heap := heap s, visible_canvas := Some (video_now env)\<rparr>" by simp
    then show ?thesis using that by (intro exI[of _ "heap s"] exI[of _ "Some (video_now env)"]) simp
  qed
  show ?thesis
  proof (cases m)
    case None
    then show ?thesis by (intro pass) (simp add: draw_frame_def)
  next
    case (Some msk)
    show ?thesis
    proof (cases "areCompatibleDimensions (frameData p) msk")
      case False
      then show ?thesis using Some by (intro pass) (simp add: draw_frame_def)
    next
      case True
      obtain h' where r: "applyGrayscaleToBackground (heap s) (frameData p) msk no_options =
           Inr (h', \<lparr>width = width (frameData p), height = height (frameData p),
                    data = next_addr (heap s)\<rparr>)"
        and n: "next_addr h' = Suc (next_addr (heap s))"
        and o: "\<forall>a. a \<noteq> next_addr (heap s) \<longrightarrow> bufs h' a = bufs (heap s) a"
        using applyGrayscaleToBackground_returns[OF assms] by blast
      have "valid_ImageData h' img" if "valid_ImageData (heap s) img" for img
        using that n o by (intro valid_ImageData_grow[OF that]) simp_all
      then show ?thesis using Some True r
        by (intro exI[of _ h'] exI[of _ "Some \<lparr>width = width (frameData p),
              height = height (frameData p), data = next_addr (heap s)\<rparr>"])
           (simp add: draw_frame_def)
    qed
  qed
qed

lemma record_stats_sample:
  assumes "lastFrameTimeRef s = Some t0" "t0 < time_now env"
  shows "length (fpsCounterRef (record_stats s p env)) =
           (if 30 \<le> length (fpsCounterRef s) then length (fpsCounterRef s)
            else Suc (length (fpsCounterRef s))) \<and>
         lastFrameTimeRef (record_stats s p env) = Some (time_now env) \<and>
         length (stats_updates (record_stats s p env)) =
           length (stats_updates s) + (if hasStatsCallback s then 1 else 0) \<and>
         heap (record_stats s p env) = heap s \<and> hook (record_stats s p env) = hook s \<and>
         isProcessingActiveRef (record_stats s p env) = isProcessingActiveRef s \<and>
         hasStatsCallback (record_stats s p env) = hasStatsCallback s \<and>
         logged_errors (record_stats s p env) = logged_errors s \<and>
         visible_canvas (record_stats s p env) = visible_canvas s"
proof -
  have "0 < fl (time_now env - t0)" using assms(2) by (intro fl_pos) simp
  then show ?thesis using assms(1) by (simp add: record_stats_def Let_def)
qed

lemma resume_completes:
  assumes "isProcessingActiveRef s" "in_flight s = [p]" "valid_ImageData (heap s) (frameData p)"
    "lastFrameTimeRef s = Some t0" "t0 < time_now env"
  shows "in_flight (processVideoFrame_resume s env) = [] \<and>
         \<not> isFrameProcessingRef (processVideoFrame_resume s env) \<and>
         isProcessingActiveRef (processVideoFrame_resume s env) \<and>
         length (fpsCounterRef (processVideoFrame_resume s env)) =
           (if 30 \<le> length (fpsCounterRef s) then length (fpsCounterRef s)
            else Suc (length (fpsCounterRef s))) \<and>
         lastFrameTimeRef (processVideoFrame_resume s env) = Some (time_now env) \<and>
         length (stats_updates (processVideoFrame_resume s env)) =
           length (stats_updates s) + (if hasStatsCallback s then 1 else 0) \<and>
         hasStatsCallback (processVideoFrame_resume s env) = hasStatsCallback s \<and>
         logged_errors (processVideoFrame_resume s env) = logged_errors s \<and>
         (\<forall>img. valid_ImageData (heap s) img \<longrightarrow>
                valid_ImageData (heap (processVideoFrame_resume s env)) img)"
proof -
  let ?s = "s\<lparr>in_flight := []\<rparr>"
  let ?m = "if issued p then processFrame_resume (send_resolved env) (hook s) else None"
  have v: "valid_ImageData (heap ?s) (frameData p)" using assms(3) by simp
  obtain h' c where d: "draw_frame ?s p ?m env = Inr (?s\<lparr>heap := h', visible_canvas := c\<rparr>)"
    and hv: "\<forall>img. valid_ImageData (heap ?s) img \<longrightarrow> valid_ImageData h' img"
    using draw_frame_valid[OF v] by blast
  let ?d = "?s\<lparr>heap := h', visible_canvas := c\<rparr>"
  have l: "lastFrameTimeRef ?d = Some t0" using assms(4) by simp
  note rs = record_stats_sample[OF l assms(5), of p]
  have eq: "processVideoFrame_resume s env =
      schedule_next ((record_stats ?d p env)\<lparr>isFrameProcessingRef := False\<rparr>)"
    using assms(1,2) d by (cases "issued p") (simp_all add: processVideoFrame_resume_def Let_def)
  have act: "isProcessingActiveRef (record_stats ?d p env)" using rs assms(1) by simp
  show ?thesis unfolding eq using rs act hv
    by (simp add: schedule_next_def requestAnimationFrame_def)
qed

lemmas scheduler_defs = run_def processVideoFrame_def processVideoFrame_resume_def
  start_processing_def stop_processing_def example_scheduler_def example_tick_def example_resume_def
  schedule_next_def requestAnimationFrame_def example_segmentation_def
  initializeSegmentation_def initial_segmentation_def processFrame_issue_def
  processFrame_resume_def enable_def onResults_def

section \<open>The compositor: claims\<close>

text \<open>
  C4. When every sampled confidence of a dimension-compatible mask is at or above the
  threshold, a confidence equal to the threshold included, the call returns an image of the
  frame's dimensions whose bytes are exactly the frame's.
\<close>

theorem composite_identity:
  assumes "valid_ImageData h frame" "valid_ImageData h msk" "areCompatibleDimensions frame msk"
    and fg: "\<forall>p < width frame * height frame.
               threshold_of opts \<le> of_nat (unat (pixels_of h msk ! (4 * p)))"
  shows "\<exists>h' out. applyGrayscaleToBackground h frame msk opts = Inr (h', out) \<and>
           width out = width frame \<and> height out = height frame \<and>
           pixels_of h' out = pixels_of h frame"
proof -
  let ?fd = "pixels_of h frame" and ?md = "pixels_of h msk"
  obtain h' where r: "applyGrayscaleToBackground h frame msk opts =
           Inr (h', \<lparr>width = width frame, height = height frame, data = next_addr h\<rparr>)"
    and c: "data msk \<noteq> next_addr h \<longrightarrow> bufs h' (next_addr h) = composited h frame msk opts"
    using applyGrayscaleToBackground_returns[OF assms(1)] by blast
  have len: "length ?md = length ?fd"
    using assms(1,2,3) by (simp add: valid_ImageData_def areCompatibleDimensions_def pixels_of_def)
  have n: "length ?fd = 4 * (width frame * height frame)"
    using assms(1) by (simp add: valid_ImageData_def pixels_of_def mult.assoc)
  have "data msk \<noteq> next_addr h" using assms(2) by (simp add: valid_ImageData_def)
  then have out: "bufs h' (next_addr h) = composited h frame msk opts" using c by simp
  have "composited h frame msk opts = ?fd"
  proof (rule nth_equalityI)
    show "length (composited h frame msk opts) = length ?fd" by (rule length_composited)
  next
    fix j assume "j < length (composited h frame msk opts)"
    then have j: "j < length ?fd" by (simp add: length_composited)
    define p where "p = j div 4"
    have p: "p < width frame * height frame" using j n by (simp add: p_def)
    have i: "4 * p < length ?md" using p n len by simp
    have "\<not> num_less (of_byte (array_get ?md (4 * p))) (Some (threshold_of opts))"
      using fg[rule_format, OF p] i by (simp add: array_get_def of_byte_def del: of_nat_unat)
    then show "composited h frame msk opts ! j = ?fd ! j"
      using j by (simp add: nth_composited out_byte_def Let_def p_def)
  qed
  then show ?thesis using r out by (simp add: pixels_of_def)
qed

theorem composite_identity_witness:
  "valid_ImageData example_store example_frame \<and>
   valid_ImageData example_store example_mask_foreground \<and>
   areCompatibleDimensions example_frame example_mask_foreground \<and>
   threshold_of (options_127 False)
     \<le> of_nat (unat (pixels_of example_store example_mask_foreground ! (4 * 0))) \<and>
   threshold_of (options_127 False)
     \<le> of_nat (unat (pixels_of example_store example_mask_foreground ! (4 * 1))) \<and>
   (\<exists>h' out. applyGrayscaleToBackground example_store example_frame example_mask_foreground
                (options_127 False) = Inr (h', out) \<and>
      pixels_of h' out = [200, 100, 50, 255, 10, 20, 30, 40])"
proof -
  have v: "valid_ImageData example_store example_frame"
    "valid_ImageData example_store example_mask_foreground"
    "areCompatibleDimensions example_frame example_mask_foreground"
    by (simp_all add: example_defs)
  have fg: "\<forall>p < width example_frame * height example_frame.
      threshold_of (options_127 False)
        \<le> of_nat (unat (pixels_of example_store example_mask_foreground ! (4 * p)))"
    by (simp add: example_defs all_less_2)
  obtain h' out where
    "applyGrayscaleToBackground example_store example_frame example_mask_foreground
       (options_127 False) = Inr (h', out)"
    "pixels_of h' out = pixels_of example_store example_frame"
    using composite_identity[OF v fg] by blast
  moreover have "pixels_of example_store example_frame = [200, 100, 50, 255, 10, 20, 30, 40]"
    by (simp add: example_defs)
  ultimately have "\<exists>h' out. applyGrayscaleToBackground example_store example_frame
       example_mask_foreground (options_127 False) = Inr (h', out) \<and>
      pixels_of h' out = [200, 100, 50, 255, 10, 20, 30, 40]"
    by auto
  moreover have "threshold_of (options_127 False)
     \<le> of_nat (unat (pixels_of example_store example_mask_foreground ! (4 * 0)))"
    "threshold_of (options_127 False)
     \<le> of_nat (unat (pixels_of example_store example_mask_foreground ! (4 * 1)))"
    by (simp_all add: example_defs)
  ultimately show ?thesis using v by blast
qed



text \<open>
  C8. The call never writes to a buffer that existed before it: the result's buffer is a
  fresh address, every allocated buffer has the content it had, and so has the input
  frame's, for every mask and every options.
\<close>

theorem composite_leaves_input:
  assumes "valid_ImageData h frame"
  shows "\<exists>h' out. applyGrayscaleToBackground h frame msk opts = Inr (h', out) \<and>
           data out = next_addr h \<and> data out \<noteq> data frame \<and>
           next_addr h' = Suc (next_addr h) \<and>
           (\<forall>a < next_addr h. bufs h' a = bufs h a) \<and>
           pixels_of h' frame = pixels_of h frame"
proof -
  obtain h' where r: "applyGrayscaleToBackground h frame msk opts =
           Inr (h', \<lparr>width = width frame, height = height frame, data = next_addr h\<rparr>)"
    and n: "next_addr h' = Suc (next_addr h)"
    and o: "\<forall>a. a \<noteq> next_addr h \<longrightarrow> bufs h' a = bufs h a"
    using applyGrayscaleToBackground_returns[OF assms] by blast
  have f: "data frame < next_addr h" using assms by (simp add: valid_ImageData_def)
  show ?thesis using r n o f
    by (intro exI[of _ h'] exI[of _ "\<lparr>width = width frame, height = height frame, data = next_addr h\<rparr>"])
       (simp add: pixels_of_def)
qed

theorem composite_leaves_input_witness:
  "valid_ImageData example_store example_frame \<and>
   (\<exists>h' out. applyGrayscaleToBackground example_store example_frame example_mask_background
                (options_127 True) = Inr (h', out) \<and>
      data out = 5 \<and> data out \<noteq> data example_frame \<and>
      bufs h' 0 = bufs example_store 0 \<and> bufs h' 1 = bufs example_store 1 \<and>
      bufs h' 2 = bufs example_store 2 \<and> bufs h' 3 = bufs example_store 3 \<and>
      bufs h' 4 = bufs example_store 4 \<and>
      pixels_of h' example_frame = [200, 100, 50, 255, 10, 20, 30, 40])"
proof -
  have v: "valid_ImageData example_store example_frame" by (simp add: example_defs)
  obtain h' out where r:
    "applyGrayscaleToBackground example_store example_frame example_mask_background
       (options_127 True) = Inr (h', out)"
    "data out = next_addr example_store" "data out \<noteq> data example_frame"
    "\<forall>a < next_addr example_store. bufs h' a = bufs example_store a"
    "pixels_of h' example_frame = pixels_of example_store example_frame"
    using composite_leaves_input[OF v] by blast
  have n: "next_addr example_store = 5" by (simp add: example_defs)
  have "bufs h' 0 = bufs example_store 0" "bufs h' 1 = bufs example_store 1"
    "bufs h' 2 = bufs example_store 2" "bufs h' 3 = bufs example_store 3"
    "bufs h' 4 = bufs example_store 4"
    using r(4) unfolding n by simp_all
  moreover have "pixels_of h' example_frame = [200, 100, 50, 255, 10, 20, 30, 40]"
    unfolding r(5) by (simp add: example_defs)
  moreover have "data out = 5" using r(2) n by simp
  ultimately show ?thesis using v r(1,3) by blast
qed

text \<open>
  C9. Compositing the result again with the same mask and options gives a result with the
  same bytes and dimensions, under the average and under the weighted method: a gray
  pixel is a fixed point of both formulas, and a pixel the mask keeps is kept twice. This
  holds for every mask of the store, so in particular for a dimension-compatible mask
  whose every sampled confidence is below the threshold, the case of the witness.
\<close>

theorem composite_idempotent:
  assumes "valid_ImageData h frame" "data msk < next_addr h"
  shows "\<exists>h1 out1 h2 out2.
           applyGrayscaleToBackground h frame msk opts = Inr (h1, out1) \<and>
           applyGrayscaleToBackground h1 out1 msk opts = Inr (h2, out2) \<and>
           width out2 = width out1 \<and> height out2 = height out1 \<and>
           pixels_of h2 out2 = pixels_of h1 out1"
proof -
  let ?out1 = "\<lparr>width = width frame, height = height frame, data = next_addr h\<rparr>"
  have m: "data msk \<noteq> next_addr h" using assms(2) by simp
  obtain h1 where r1: "applyGrayscaleToBackground h frame msk opts = Inr (h1, ?out1)"
    and n1: "next_addr h1 = Suc (next_addr h)"
    and o1: "\<forall>a. a \<noteq> next_addr h \<longrightarrow> bufs h1 a = bufs h a"
    and l1: "length (bufs h1 (next_addr h)) = length (bufs h (data frame))"
    and c1: "bufs h1 (next_addr h) = composited h frame msk opts"
    using applyGrayscaleToBackground_returns[OF assms(1), of msk opts] m by blast
  have len: "length (pixels_of h frame) = 4 * (width frame * height frame)"
    using assms(1) by (simp add: valid_ImageData_def pixels_of_def mult.assoc)
  have v1: "valid_ImageData h1 ?out1"
    using assms(1) n1 l1 by (simp add: valid_ImageData_def)
  let ?out2 = "\<lparr>width = width ?out1, height = height ?out1, data = next_addr h1\<rparr>"
  have m1: "data msk \<noteq> next_addr h1" using assms(2) n1 by simp
  obtain h2 where r2: "applyGrayscaleToBackground h1 ?out1 msk opts = Inr (h2, ?out2)"
    and c2: "bufs h2 (next_addr h1) = composited h1 ?out1 msk opts"
    using applyGrayscaleToBackground_returns[OF v1, of msk opts] m1 by blast
  have same: "pixels_of h1 msk = pixels_of h msk" using o1 m by (simp add: pixels_of_def)
  have first: "pixels_of h1 ?out1 = composited h frame msk opts" using c1 by (simp add: pixels_of_def)
  have n: "length (pixels_of h1 ?out1) = 4 * (width frame * height frame)"
    using l1 len by (simp add: pixels_of_def)
  have "composited h1 ?out1 msk opts = pixels_of h1 ?out1"
    using n first same len by (rule composited_fixpoint)
  then have "pixels_of h2 ?out2 = pixels_of h1 ?out1" using c2 by (simp add: pixels_of_def)
  then show ?thesis using r1 r2 by (intro exI[of _ h1] exI[of _ ?out1] exI[of _ h2] exI[of _ ?out2]) simp
qed

theorem composite_idempotent_witness:
  "valid_ImageData example_store example_frame \<and>
   valid_ImageData example_store example_mask_background \<and>
   areCompatibleDimensions example_frame example_mask_background \<and>
   of_nat (unat (pixels_of example_store example_mask_background ! (4 * 0)))
     < threshold_of (options_127 True) \<and>
   of_nat (unat (pixels_of example_store example_mask_background ! (4 * 1)))
     < threshold_of (options_127 True) \<and>
   (\<exists>h1 out1 h2 out2.
      applyGrayscaleToBackground example_store example_frame example_mask_background
        (options_127 True) = Inr (h1, out1) \<and>
      applyGrayscaleToBackground h1 out1 example_mask_background (options_127 True)
        = Inr (h2, out2) \<and>
      pixels_of h2 out2 = pixels_of h1 out1)"
proof -
  have v: "valid_ImageData example_store example_frame"
    "valid_ImageData example_store example_mask_background"
    "areCompatibleDimensions example_frame example_mask_background"
    "data example_mask_background < next_addr example_store"
    by (simp_all add: example_defs)
  have bg: "of_nat (unat (pixels_of example_store example_mask_background ! (4 * 0)))
       < threshold_of (options_127 True)"
    "of_nat (unat (pixels_of example_store example_mask_background ! (4 * 1)))
       < threshold_of (options_127 True)"
    by (simp_all add: example_defs)
  show ?thesis using v(1,2,3) bg composite_idempotent[OF v(1) v(4), of "options_127 True"] by blast
qed

text \<open>
  C10. With a mask buffer shorter than the frame's the call still returns, and a pixel
  whose mask sample lies past the end of the mask buffer is never classified as below the
  threshold (the read gives \<^verbatim>\<open>undefined\<close>, which compares false) and keeps its four bytes.
\<close>

theorem composite_short_mask:
  assumes "valid_ImageData h frame" "data msk < next_addr h"
    and "length (pixels_of h msk) < length (pixels_of h frame)"
  shows "\<exists>h' out. applyGrayscaleToBackground h frame msk opts = Inr (h', out) \<and>
           (\<forall>p < width frame * height frame. length (pixels_of h msk) \<le> 4 * p \<longrightarrow>
              \<not> num_less (confidence (pixels_of h msk) p) (Some (threshold_of opts)) \<and>
              (\<forall>c < 4. pixels_of h' out ! (4 * p + c) = pixels_of h frame ! (4 * p + c)))"
proof -
  let ?out = "\<lparr>width = width frame, height = height frame, data = next_addr h\<rparr>"
  have m: "data msk \<noteq> next_addr h" using assms(2) by simp
  obtain h' where r: "applyGrayscaleToBackground h frame msk opts = Inr (h', ?out)"
    and c: "bufs h' (next_addr h) = composited h frame msk opts"
    using applyGrayscaleToBackground_returns[OF assms(1), of msk opts] m by blast
  have px: "\<not> num_less (confidence (pixels_of h msk) p) (Some (threshold_of opts)) \<and>
      (\<forall>c < 4. pixels_of h' ?out ! (4 * p + c) = pixels_of h frame ! (4 * p + c))"
    if p: "p < width frame * height frame" and far: "length (pixels_of h msk) \<le> 4 * p" for p
  proof -
    have u: "array_get (pixels_of h msk) (4 * p) = None" using far by (simp add: array_get_def)
    have "pixels_of h' ?out ! (4 * p + c) = pixels_of h frame ! (4 * p + c)" if "c < 4" for c
      using valid_pixel_index[OF assms(1) p that] that c
      by (simp add: pixels_of_def[of h' ?out] nth_composited out_byte_pixel u of_byte_def)
    then show ?thesis by (simp add: confidence_def u of_byte_def)
  qed
  show ?thesis using r px by (intro exI[of _ h'] exI[of _ ?out]) simp
qed

theorem composite_short_mask_witness:
  "valid_ImageData example_store example_frame \<and>
   data example_mask_small < next_addr example_store \<and>
   length (pixels_of example_store example_mask_small)
     < length (pixels_of example_store example_frame) \<and>
   (1::nat) < width example_frame * height example_frame \<and>
   length (pixels_of example_store example_mask_small) \<le> 4 * 1 \<and>
   pixels_of example_store example_frame = [200, 100, 50, 255, 10, 20, 30, 40] \<and>
   (\<exists>h' out. applyGrayscaleToBackground example_store example_frame example_mask_small
                (options_127 False) = Inr (h', out) \<and>
      pixels_of h' out ! 4 = 10 \<and> pixels_of h' out ! 5 = 20 \<and>
      pixels_of h' out ! 6 = 30 \<and> pixels_of h' out ! 7 = 40)"
proof -
  have v: "valid_ImageData example_store example_frame"
    "data example_mask_small < next_addr example_store"
    "length (pixels_of example_store example_mask_small)
       < length (pixels_of example_store example_frame)"
    by (simp_all add: example_defs)
  have p: "(1::nat) < width example_frame * height example_frame"
    "length (pixels_of example_store example_mask_small) \<le> 4 * 1"
    by (simp_all add: example_defs)
  have fd: "pixels_of example_store example_frame = [200, 100, 50, 255, 10, 20, 30, 40]"
    by (simp add: example_defs)
  obtain h' out where r:
    "applyGrayscaleToBackground example_store example_frame example_mask_small
       (options_127 False) = Inr (h', out)"
    and px: "\<forall>p < width example_frame * height example_frame.
       length (pixels_of example_store example_mask_small) \<le> 4 * p \<longrightarrow>
         \<not> num_less (confidence (pixels_of example_store example_mask_small) p)
              (Some (threshold_of (options_127 False))) \<and>
         (\<forall>c < 4. pixels_of h' out ! (4 * p + c) = pixels_of example_store example_frame ! (4 * p + c))"
    using composite_short_mask[OF v] by blast
  have q: "\<forall>c < 4. pixels_of h' out ! (4 * 1 + c) = pixels_of example_store example_frame ! (4 * 1 + c)"
    using px[rule_format, OF p] by simp
  have "pixels_of h' out ! 4 = 10" "pixels_of h' out ! 5 = 20"
    "pixels_of h' out ! 6 = 30" "pixels_of h' out ! 7 = 40"
    using q[rule_format, of 0] q[rule_format, of 1] q[rule_format, of 2] q[rule_format, of 3]
    by (simp_all add: fd)
  then show ?thesis using v p fd r by blast
qed

text \<open>
  C1. The claim gives the default threshold as 127. The constant of the code is 255: a call
  without a threshold option grays every pixel whose confidence is below 255. Here the
  first pixel of the mask has confidence 200, which the claim keeps in colour, and the
  call without options writes the gray 117 over (200, 100, 50).
\<close>

theorem default_threshold_is_255:
  "threshold_of no_options = 255 \<and>
   pixels_of example_store example_frame = [200, 100, 50, 255, 10, 20, 30, 40] \<and>
   pixels_of example_store example_mask_confident ! 0 = 200 \<and>
   (\<exists>h' out. applyGrayscaleToBackground example_store example_frame example_mask_confident
                no_options = Inr (h', out) \<and>
      pixels_of h' out ! 0 = 117 \<and> pixels_of h' out ! 1 = 117 \<and> pixels_of h' out ! 2 = 117 \<and>
      pixels_of h' out ! 3 = 255)"
proof -
  have v: "valid_ImageData example_store example_frame" by (simp add: example_defs)
  have m: "data example_mask_confident \<noteq> next_addr example_store" by (simp add: example_defs)
  let ?out = "\<lparr>width = width example_frame, height = height example_frame,
               data = next_addr example_store\<rparr>"
  obtain h' where r: "applyGrayscaleToBackground example_store example_frame
      example_mask_confident no_options = Inr (h', ?out)"
    and c: "bufs h' (next_addr example_store) =
      composited example_store example_frame example_mask_confident no_options"
    using applyGrayscaleToBackground_returns[OF v, of example_mask_confident no_options] m by blast
  have t: "threshold_of no_options = 255"
    by (simp add: threshold_of_def no_options_def DEFAULT_THRESHOLD_def)
  have w: "\<not> weighted_of no_options" by (simp add: weighted_of_def no_options_def)
  have fd: "pixels_of example_store example_frame = [200, 100, 50, 255, 10, 20, 30, 40]"
    by (simp add: example_defs)
  have md: "pixels_of example_store example_mask_confident = [200, 200, 200, 255, 255, 255, 255, 255]"
    by (simp add: example_defs)
  have "unat (ToUint8Clamp (gray_value False (Some (of_nat 200)) (Some (of_nat 100)) (Some (of_nat 50))))
      = (200 + 100 + 50 + 1) div 3"
    by (rule gray_average_byte) simp_all
  then have "unat (ToUint8Clamp (gray_value False (Some 200) (Some 100) (Some 50))) = 117" by simp
  then have G: "ToUint8Clamp (gray_value False (Some 200) (Some 100) (Some 50)) = 117"
    by (simp add: word_unat_eq_iff)
  have o: "pixels_of h' ?out ! (4 * 0 + c) = (if c < 3 then 117 else [200, 100, 50, 255, 10, 20, 30, 40] ! (4 * 0 + c))"
    if "c < 4" for c
    using that w
    by (simp add: pixels_of_def[of h' ?out] c nth_composited out_byte_pixel[where p = 0, simplified]
        fd md t array_get_def of_byte_def G)
  have "pixels_of h' ?out ! 0 = 117" "pixels_of h' ?out ! 1 = 117" "pixels_of h' ?out ! 3 = 255"
    using o[of 0] o[of 1] o[of 3] by simp_all
  moreover have "pixels_of h' ?out ! 2 = 117"
    using o[of 2] by (simp add: numeral_2_eq_2)
  ultimately show ?thesis using t fd md r by auto
qed

section \<open>The segmentation hook: claims\<close>

text \<open>
  C2. On the loaded hook, where \<^verbatim>\<open>processFrame\<close> issues its request, a request is
  issued, \<^verbatim>\<open>reset()\<close> is called, and the provider's callback fires for
  that request after \<^verbatim>\<open>reset()\<close> has returned. When the callback comes straight after
  the reset it is rejected: the cache stays empty and the resumed \<^verbatim>\<open>processFrame\<close> returns
  \<^verbatim>\<open>null\<close>. When \<^verbatim>\<open>enable()\<close> has run in between, as it does when the loop starts again,
  the callback of the old request is accepted: the session id has gone from 0 to 1, but
  no code reads it, and the late mask is cached and returned.
\<close>

theorem late_result_cached_after_enable:
  "segmentationRef example_segmentation \<and> isModelLoaded example_segmentation \<and>
   sessionIdRef example_segmentation = 0 \<and>
   latestResultRef (seg_run example_segmentation
      [Reset, Results (Some example_mask_background) True]) = None \<and>
   processFrame_resume True (seg_run example_segmentation
      [Reset, Results (Some example_mask_background) True]) = None \<and>
   sessionIdRef (seg_run example_segmentation [Reset, Enable]) = 1 \<and>
   latestResultRef (seg_run example_segmentation
      [Reset, Enable, Results (Some example_mask_background) True])
     = Some example_mask_background \<and>
   processFrame_resume True (seg_run example_segmentation
      [Reset, Enable, Results (Some example_mask_background) True])
     = Some example_mask_background"
  by (simp add: seg_run_def example_segmentation_def initializeSegmentation_def
      initial_segmentation_def processFrame_issue_def processFrame_resume_def
      reset_def enable_def onResults_def)

text \<open>
  C3. The callback looks at the enabled flag only: its effect is the same under every
  session id. So when \<^verbatim>\<open>reset()\<close> and then \<^verbatim>\<open>enable()\<close> run between the issue of a
  request and its callback, the result of the old session is cached under the new session
  id and the resumed \<^verbatim>\<open>processFrame\<close> returns it.
\<close>

theorem stale_result_accepted:
  assumes "processFrame_issue s = Awaiting" "canvasRef s"
  shows "latestResultRef (onResults (Some m) True (enable (reset s))) = Some m \<and>
         processFrame_resume True (onResults (Some m) True (enable (reset s))) = Some m \<and>
         sessionIdRef (onResults (Some m) True (enable (reset s))) = sessionIdRef s + 1 \<and>
         (\<forall>r c t n. onResults r c (t\<lparr>sessionIdRef := n\<rparr>) = (onResults r c t)\<lparr>sessionIdRef := n\<rparr>)"
  using assms
  by (auto simp: onResults_def enable_def reset_def processFrame_resume_def split: option.splits)

theorem stale_result_accepted_witness:
  "processFrame_issue example_segmentation = Awaiting \<and> canvasRef example_segmentation \<and>
   latestResultRef (seg_run example_segmentation
      [Reset, Enable, Results (Some example_mask_confident) True]) = Some example_mask_confident \<and>
   processFrame_resume True (seg_run example_segmentation
      [Reset, Enable, Results (Some example_mask_confident) True]) = Some example_mask_confident \<and>
   sessionIdRef (seg_run example_segmentation
      [Reset, Enable, Results (Some example_mask_confident) True]) = 1"
proof -
  have i: "processFrame_issue example_segmentation = Awaiting" "canvasRef example_segmentation"
    "sessionIdRef example_segmentation = 0"
    by (simp_all add: example_segmentation_def initializeSegmentation_def initial_segmentation_def
        processFrame_issue_def)
  show ?thesis
    using i stale_result_accepted[OF i(1,2), of example_mask_confident]
    by (simp add: seg_run_def)
qed

section \<open>The frame scheduler: claims\<close>

text \<open>
  C6. The bound of one call in flight fails when the effect starts the loop again while a
  call is suspended. The cleanup clears the guard flag and the restart sets the active
  flag, so the first call of the new loop suspends a second call beside the old one, and
  the old call, once resumed, goes on as if it belonged to the new loop. Here two calls
  are in flight after the restart and again after the tick at 22, which arrives while the
  call of the restart still awaits its mask and is not dropped; three ticks leave three
  samples.
\<close>

theorem two_frames_in_flight_after_restart:
  "in_flight (start_processing example_scheduler) = [] \<and>
   length (in_flight (run (start_processing example_scheduler)
      [Tick (example_tick 5), Stop, Start (example_tick 8)])) = 2 \<and>
   length (in_flight (run (start_processing example_scheduler)
      [Tick (example_tick 5), Stop, Start (example_tick 8), Resume (example_resume 20),
       Tick (example_tick 22)])) = 2 \<and>
   length (fpsCounterRef (run (start_processing example_scheduler)
      [Tick (example_tick 5), Stop, Start (example_tick 8), Resume (example_resume 20),
       Tick (example_tick 22), Resume (example_resume 25), Resume (example_resume 30)])) = 3"
  by (simp add: scheduler_defs draw_frame_def record_stats_def Let_def)

text \<open>
  Without such a restart the guard does what it is there for. A tick that fires while the
  guard flag is set only requests the next animation frame: it captures nothing,
  composites nothing, records no statistics and suspends no call. From a state with no
  suspended call, along every run of ticks, resumptions, callbacks, stops, direct draws and
  starts in which the effect never starts the loop while a call is suspended, at most one
  call is suspended. In the run of three ticks where the second arrives while the first
  awaits its mask, the second changes nothing but the requested frame, and the two
  resumptions record exactly two samples and report twice.
\<close>

theorem one_frame_in_flight:
  "(isProcessingActiveRef s \<and> isFrameProcessingRef s \<longrightarrow>
      processVideoFrame s env = requestAnimationFrame s) \<and>
   (in_flight s = [] \<and> starts_unsuspended s es \<longrightarrow> length (in_flight (run s es)) \<le> 1) \<and>
   (isProcessingActiveRef s \<and> \<not> isFrameProcessingRef s \<and> in_flight s = [] \<and>
    fpsCounterRef s = [] \<and> lastFrameTimeRef s = Some 0 \<and>
    refs_ok e1 \<and> \<not> paused e1 \<and> \<not> ended e1 \<and> contexts_ok e1 \<and>
    \<not> capture_throws e1 \<and>
    refs_ok e3 \<and> \<not> paused e3 \<and> \<not> ended e3 \<and> contexts_ok e3 \<and>
    \<not> capture_throws e3 \<and>
    valid_ImageData (heap s) (video_frame e1) \<and> valid_ImageData (heap s) (video_frame e3) \<and>
    0 < time_now r1 \<and> time_now r1 < time_now r3 \<longrightarrow>
      run s [Tick e1, Tick e2] = requestAnimationFrame (run s [Tick e1]) \<and>
      length (fpsCounterRef (run s [Tick e1, Tick e2, Resume r1, Tick e3, Resume r3])) = 2 \<and>
      length (stats_updates (run s [Tick e1, Tick e2, Resume r1, Tick e3, Resume r3])) =
        length (stats_updates s) + (if hasStatsCallback s then 2 else 0) \<and>
      in_flight (run s [Tick e1, Tick e2, Resume r1, Tick e3, Resume r3]) = [])"
proof -
  have dropped: "isProcessingActiveRef s \<and> isFrameProcessingRef s \<longrightarrow>
      processVideoFrame s env = requestAnimationFrame s"
    by (simp add: processVideoFrame_dropped)
  have bounded: "in_flight s = [] \<and> starts_unsuspended s es \<longrightarrow>
      length (in_flight (run s es)) \<le> 1"
    using guard_run[of s es] by simp
  have scenario: "run s [Tick e1, Tick e2] = requestAnimationFrame (run s [Tick e1]) \<and>
      length (fpsCounterRef (run s [Tick e1, Tick e2, Resume r1, Tick e3, Resume r3])) = 2 \<and>
      length (stats_updates (run s [Tick e1, Tick e2, Resume r1, Tick e3, Resume r3])) =
        length (stats_updates s) + (if hasStatsCallback s then 2 else 0) \<and>
      in_flight (run s [Tick e1, Tick e2, Resume r1, Tick e3, Resume r3]) = []"
    if a: "isProcessingActiveRef s \<and> \<not> isFrameProcessingRef s \<and> in_flight s = [] \<and>
    fpsCounterRef s = [] \<and> lastFrameTimeRef s = Some 0 \<and>
    refs_ok e1 \<and> \<not> paused e1 \<and> \<not> ended e1 \<and> contexts_ok e1 \<and>
    \<not> capture_throws e1 \<and>
    refs_ok e3 \<and> \<not> paused e3 \<and> \<not> ended e3 \<and> contexts_ok e3 \<and>
    \<not> capture_throws e3 \<and>
    valid_ImageData (heap s) (video_frame e1) \<and> valid_ImageData (heap s) (video_frame e3) \<and>
    0 < time_now r1 \<and> time_now r1 < time_now r3"
  proof -
  let ?p1 = "\<lparr>frameData = video_frame e1, startTime = tick_now e1,
              issued = (processFrame_issue (hook s) = Awaiting)\<rparr>"
  define s1 where "s1 = processVideoFrame s e1"
  define s2 where "s2 = processVideoFrame s1 e2"
  define s3 where "s3 = processVideoFrame_resume s2 r1"
  define s4 where "s4 = processVideoFrame s3 e3"
  define s5 where "s5 = processVideoFrame_resume s4 r3"
  have s1: "s1 = s\<lparr>isFrameProcessingRef := True, in_flight := [?p1]\<rparr>"
    unfolding s1_def using a by (simp add: processVideoFrame_starts)
  have s2: "s2 = requestAnimationFrame s1"
    unfolding s2_def using a s1 by (simp add: processVideoFrame_dropped)
  have p2: "isProcessingActiveRef s2" "in_flight s2 = [?p1]"
    "valid_ImageData (heap s2) (frameData ?p1)" "lastFrameTimeRef s2 = Some 0"
    "fpsCounterRef s2 = []" "stats_updates s2 = stats_updates s"
    "hasStatsCallback s2 = hasStatsCallback s" "heap s2 = heap s"
    using a by (simp_all add: s2 s1 requestAnimationFrame_def)
  have t1: "(0::rat) < time_now r1" using a by simp
  note c3 = resume_completes[OF p2(1,2,3,4) t1, folded s3_def]
  have p3: "isProcessingActiveRef s3" "\<not> isFrameProcessingRef s3" "in_flight s3 = []"
    "length (fpsCounterRef s3) = 1" "lastFrameTimeRef s3 = Some (time_now r1)"
    "length (stats_updates s3) = length (stats_updates s) + (if hasStatsCallback s then 1 else 0)"
    "hasStatsCallback s3 = hasStatsCallback s" "valid_ImageData (heap s3) (video_frame e3)"
    using c3 p2 a by simp_all
  let ?p3 = "\<lparr>frameData = video_frame e3, startTime = tick_now e3,
              issued = (processFrame_issue (hook s3) = Awaiting)\<rparr>"
  have s4: "s4 = s3\<lparr>isFrameProcessingRef := True, in_flight := [?p3]\<rparr>"
    unfolding s4_def using a p3 by (simp add: processVideoFrame_starts)
  have p4: "isProcessingActiveRef s4" "in_flight s4 = [?p3]"
    "valid_ImageData (heap s4) (frameData ?p3)" "lastFrameTimeRef s4 = Some (time_now r1)"
    using p3 by (simp_all add: s4)
  have t3: "time_now r1 < time_now r3" using a by simp
  note c5 = resume_completes[OF p4 t3, folded s5_def]
  have "length (fpsCounterRef s5) = 2" "in_flight s5 = []"
    "length (stats_updates s5) = length (stats_updates s) + (if hasStatsCallback s then 2 else 0)"
    using c5 p3 by (simp_all add: s4)
  moreover have "run s [Tick e1, Tick e2, Resume r1, Tick e3, Resume r3] = s5"
    by (simp add: run_def s5_def s4_def s3_def s2_def s1_def)
  moreover have "run s [Tick e1, Tick e2] = requestAnimationFrame (run s [Tick e1])"
    using s2 by (simp add: run_def s2_def s1_def)
  ultimately show ?thesis by simp
  qed
  show ?thesis using dropped bounded scenario by blast
qed

theorem one_frame_in_flight_witness:
  "isProcessingActiveRef (run (start_processing example_scheduler) [Tick (example_tick 5)]) \<and>
   isFrameProcessingRef (run (start_processing example_scheduler) [Tick (example_tick 5)]) \<and>
   processVideoFrame (run (start_processing example_scheduler) [Tick (example_tick 5)])
       (example_tick 12)
     = requestAnimationFrame (run (start_processing example_scheduler) [Tick (example_tick 5)]) \<and>
   in_flight (start_processing example_scheduler) = [] \<and>
   starts_unsuspended (start_processing example_scheduler)
      [Tick (example_tick 5), Tick (example_tick 12), Resume (example_resume 20), Stop,
       Disable example_direct, Start (example_tick 30)] \<and>
   length (in_flight (run (start_processing example_scheduler)
      [Tick (example_tick 5), Tick (example_tick 12), Resume (example_resume 20), Stop,
       Disable example_direct, Start (example_tick 30)])) \<le> 1 \<and>
   isProcessingActiveRef (start_processing example_scheduler) \<and>
   \<not> isFrameProcessingRef (start_processing example_scheduler) \<and>
   fpsCounterRef (start_processing example_scheduler) = [] \<and>
   lastFrameTimeRef (start_processing example_scheduler) = Some 0 \<and>
   refs_ok (example_tick 5) \<and> \<not> paused (example_tick 5) \<and> \<not> ended (example_tick 5) \<and>
   contexts_ok (example_tick 5) \<and> \<not> capture_throws (example_tick 5) \<and>
   refs_ok (example_tick 30) \<and> \<not> paused (example_tick 30) \<and> \<not> ended (example_tick 30) \<and>
   contexts_ok (example_tick 30) \<and> \<not> capture_throws (example_tick 30) \<and>
   valid_ImageData (heap (start_processing example_scheduler)) (video_frame (example_tick 5)) \<and>
   valid_ImageData (heap (start_processing example_scheduler)) (video_frame (example_tick 30)) \<and>
   0 < time_now (example_resume 20) \<and> time_now (example_resume 20) < time_now (example_resume 40) \<and>
   length (fpsCounterRef (run (start_processing example_scheduler)
      [Tick (example_tick 5), Tick (example_tick 12), Resume (example_resume 20),
       Tick (example_tick 30), Resume (example_resume 40)])) = 2 \<and>
   length (stats_updates (run (start_processing example_scheduler)
      [Tick (example_tick 5), Tick (example_tick 12), Resume (example_resume 20),
       Tick (example_tick 30), Resume (example_resume 40)])) = 2"
proof -
  let ?s0 = "start_processing example_scheduler"
  let ?sA = "run ?s0 [Tick (example_tick 5)]"
  have A: "isProcessingActiveRef ?sA \<and> isFrameProcessingRef ?sA"
    by (simp add: scheduler_defs Let_def)
  have B: "in_flight ?s0 = [] \<and> starts_unsuspended ?s0
      [Tick (example_tick 5), Tick (example_tick 12), Resume (example_resume 20), Stop,
       Disable example_direct, Start (example_tick 30)]"
    by (simp add: scheduler_defs draw_frame_def record_stats_def Let_def effect_disabled_def
        drawVideoDirectly_def example_direct_def)
  have C: "isProcessingActiveRef ?s0 \<and> \<not> isFrameProcessingRef ?s0 \<and> in_flight ?s0 = [] \<and>
    fpsCounterRef ?s0 = [] \<and> lastFrameTimeRef ?s0 = Some 0 \<and>
    refs_ok (example_tick 5) \<and> \<not> paused (example_tick 5) \<and> \<not> ended (example_tick 5) \<and>
    contexts_ok (example_tick 5) \<and> \<not> capture_throws (example_tick 5) \<and>
    refs_ok (example_tick 30) \<and> \<not> paused (example_tick 30) \<and> \<not> ended (example_tick 30) \<and>
    contexts_ok (example_tick 30) \<and> \<not> capture_throws (example_tick 30) \<and>
    valid_ImageData (heap ?s0) (video_frame (example_tick 5)) \<and>
    valid_ImageData (heap ?s0) (video_frame (example_tick 30)) \<and>
    0 < time_now (example_resume 20) \<and> time_now (example_resume 20) < time_now (example_resume 40)"
    by (simp add: scheduler_defs example_defs)
  have H: "hasStatsCallback ?s0" "stats_updates ?s0 = []" by (simp_all add: scheduler_defs)
  note T1 = one_frame_in_flight[of ?sA "example_tick 12"]
  note T2 = one_frame_in_flight[of ?s0 _
      "[Tick (example_tick 5), Tick (example_tick 12), Resume (example_resume 20), Stop,
        Disable example_direct, Start (example_tick 30)]"
      "example_tick 5" "example_tick 30" "example_resume 20" "example_resume 40" "example_tick 12"]
  have a: "processVideoFrame ?sA (example_tick 12) = requestAnimationFrame ?sA"
    using T1 A by blast
  have b: "length (in_flight (run ?s0
      [Tick (example_tick 5), Tick (example_tick 12), Resume (example_resume 20), Stop,
       Disable example_direct, Start (example_tick 30)])) \<le> 1"
    using T2 B by blast
  have c: "length (fpsCounterRef (run ?s0
      [Tick (example_tick 5), Tick (example_tick 12), Resume (example_resume 20),
       Tick (example_tick 30), Resume (example_resume 40)])) = 2"
    "length (stats_updates (run ?s0
      [Tick (example_tick 5), Tick (example_tick 12), Resume (example_resume 20),
       Tick (example_tick 30), Resume (example_resume 40)])) = 2"
    using T2 C H by simp_all
  show ?thesis using A B C a b c by blast
qed

text \<open>
  C7. When the call resumed in a running loop has no mask, or a mask whose width or height
  differs from the frame's, it draws the video's frame as it is on the visible canvas,
  touches no buffer, logs no error and clears the guard. The frame drawn is the one the
  video shows at that moment, which is the captured frame when the video has not
  advanced. A frame of 100 by 100 and a mask of 50 by 50 are not compatible; the witness
  is a frame of 2 by 1 with a mask of 1 by 1.
\<close>

theorem passthrough_without_compatible_mask:
  assumes "isProcessingActiveRef s" "in_flight s = p # rest"
    and "case (if issued p then processFrame_resume (send_resolved env) (hook s) else None) of
           None \<Rightarrow> True
         | Some m \<Rightarrow> \<not> areCompatibleDimensions (frameData p) m"
  shows "visible_canvas (processVideoFrame_resume s env) = Some (video_now env) \<and>
         heap (processVideoFrame_resume s env) = heap s \<and>
         logged_errors (processVideoFrame_resume s env) = logged_errors s \<and>
         \<not> isFrameProcessingRef (processVideoFrame_resume s env) \<and>
         in_flight (processVideoFrame_resume s env) = rest \<and>
         \<not> areCompatibleDimensions \<lparr>width = 100, height = 100, data = a\<rparr>
              \<lparr>width = 50, height = 50, data = b\<rparr>"
proof -
  let ?s = "s\<lparr>in_flight := rest\<rparr>"
  let ?m = "if issued p then processFrame_resume (send_resolved env) (hook s) else None"
  have d: "draw_frame ?s p ?m env = Inr (?s\<lparr>visible_canvas := Some (video_now env)\<rparr>)"
    using assms(3) by (cases ?m) (simp_all add: draw_frame_def)
  have eq: "processVideoFrame_resume s env =
      schedule_next ((record_stats (?s\<lparr>visible_canvas := Some (video_now env)\<rparr>) p env)
        \<lparr>isFrameProcessingRef := False\<rparr>)"
    using assms(1,2) d by (cases "issued p") (simp_all add: processVideoFrame_resume_def Let_def)
  show ?thesis unfolding eq
    by (simp add: schedule_next_def requestAnimationFrame_def record_stats_def Let_def
        areCompatibleDimensions_def)
qed

theorem passthrough_without_compatible_mask_witness:
  "isProcessingActiveRef (run (start_processing example_scheduler)
      [Tick (example_tick 5), Callback (Some example_mask_small) True]) \<and>
   in_flight (run (start_processing example_scheduler)
      [Tick (example_tick 5), Callback (Some example_mask_small) True])
     = [\<lparr>frameData = example_frame, startTime = 5, issued = True\<rparr>] \<and>
   processFrame_resume True (hook (run (start_processing example_scheduler)
      [Tick (example_tick 5), Callback (Some example_mask_small) True]))
     = Some example_mask_small \<and>
   \<not> areCompatibleDimensions example_frame example_mask_small \<and>
   visible_canvas (run (start_processing example_scheduler)
      [Tick (example_tick 5), Callback (Some example_mask_small) True,
       Resume (example_resume 20)]) = Some example_frame \<and>
   heap (run (start_processing example_scheduler)
      [Tick (example_tick 5), Callback (Some example_mask_small) True,
       Resume (example_resume 20)]) = example_store \<and>
   logged_errors (run (start_processing example_scheduler)
      [Tick (example_tick 5), Callback (Some example_mask_small) True,
       Resume (example_resume 20)]) = 0"
proof -
  let ?s = "run (start_processing example_scheduler)
      [Tick (example_tick 5), Callback (Some example_mask_small) True]"
  let ?p = "\<lparr>frameData = example_frame, startTime = 5, issued = True\<rparr>"
  have a: "isProcessingActiveRef ?s" "in_flight ?s = ?p # []"
    by (simp_all add: scheduler_defs Let_def)
  have m: "processFrame_resume True (hook ?s) = Some example_mask_small"
    by (simp add: scheduler_defs Let_def)
  have n: "\<not> areCompatibleDimensions example_frame example_mask_small"
    by (simp add: example_defs)
  have c: "case (if issued ?p then processFrame_resume (send_resolved (example_resume 20)) (hook ?s)
                 else None) of
           None \<Rightarrow> True
         | Some m \<Rightarrow> \<not> areCompatibleDimensions (frameData ?p) m"
    using m n by (simp add: example_resume_def)
  have r: "run (start_processing example_scheduler)
      [Tick (example_tick 5), Callback (Some example_mask_small) True,
       Resume (example_resume 20)] = processVideoFrame_resume ?s (example_resume 20)"
    by (simp add: run_def)
  have h: "heap ?s = example_store" "logged_errors ?s = 0"
    by (simp_all add: scheduler_defs Let_def)
  have v: "video_now (example_resume 20) = example_frame" by (simp add: example_resume_def)
  show ?thesis
    using a m n passthrough_without_compatible_mask[OF a c] unfolding r h v by simp
qed

end
